theory Spec2Isabelle
  imports Complex_Main "HOL-Library.Word"
begin

section \<open>Data model (order_book.h)\<close>

text \<open>
  Prices are C++ doubles. The book only copies them and compares them with \<open><\<close> and
  \<open>!=\<close>, directly and as keys of its two \<open>std::map\<close>s; it never computes with them and
  checks none of its inputs. A double is NaN or a number. Under \<open><\<close> and \<open>!=\<close> every NaN
  behaves alike, so there is one \<open>NaN\<close>. The numbers (the infinities included) are
  ordered like reals, and \<open>-0.0\<close> and \<open>+0.0\<close> compare equal, so \<open>Num\<close> carries a real
  that stands for the number in that order.
\<close>

datatype double = NaN | Num real

text \<open>\<open>a < b\<close> and \<open>a != b\<close> on doubles: with a NaN operand the first is false, the second true.\<close>

fun double_less :: "double \<Rightarrow> double \<Rightarrow> bool" where
  "double_less (Num a) (Num b) = (a < b)"
| "double_less _ _ = False"

fun double_ne :: "double \<Rightarrow> double \<Rightarrow> bool" where
  "double_ne (Num a) (Num b) = (a \<noteq> b)"
| "double_ne _ _ = True"

text \<open>
  Quantities, identifiers and timestamps are \<open>uint64_t\<close>, hence 64-bit words.
  An \<open>Order*\<close> is the index of a slot of the pool's memory block.
\<close>

type_synonym handle = nat

record PriceLevel =
  price :: double
  total_quantity :: "64 word"

record Order =
  order_id :: "64 word"
  is_buy :: bool
  price :: double
  quantity :: "64 word"
  timestamp_ns :: "64 word"

text \<open>\<open>OrderBook::MemoryPool\<close>: the memory block (slot contents) and the free list.\<close>

record MemoryPool =
  memory :: "handle \<Rightarrow> Order"
  capacity :: nat
  free_list :: "handle list"

text \<open>
  A \<open>std::map<double, std::list<Order*>, Compare>\<close> is the list of its entries in
  iteration order, so \<open>begin()\<close> is the head of the list.
\<close>

type_synonym side_book = "(double \<times> handle list) list"

record OrderBook =
  pool :: MemoryPool
  bids :: side_book
  asks :: side_book
  order_lookup :: "64 word \<rightharpoonup> handle"

text \<open>The line written to \<open>std::cout\<close> for each match.\<close>

record trade =
  match_qty :: "64 word"
  match_price :: double
  buy_id :: "64 word"
  sell_id :: "64 word"

text \<open>\<open>std::runtime_error("Memory pool exhausted")\<close>, the spec's CapacityExhausted.\<close>

datatype error = Memory_pool_exhausted

section \<open>Memory pool\<close>

text \<open>
  The constructor pushes the slots \<open>0, 1, ..., capacity - 1\<close> onto the free list in this
  order; the block itself is not initialised, so its contents \<open>raw\<close> are a parameter.
\<close>

definition MemoryPool_init :: "nat \<Rightarrow> (handle \<Rightarrow> Order) \<Rightarrow> MemoryPool" where
  "MemoryPool_init n raw = \<lparr>memory = raw, capacity = n, free_list = [0..<n]\<rparr>"

definition allocate :: "MemoryPool \<Rightarrow> error + (handle \<times> MemoryPool)" where
  "allocate p =
     (if free_list p = [] then Inl Memory_pool_exhausted
      else Inr (last (free_list p), p\<lparr>free_list := butlast (free_list p)\<rparr>))"

definition deallocate :: "handle \<Rightarrow> MemoryPool \<Rightarrow> MemoryPool" where
  "deallocate order p = p\<lparr>free_list := free_list p @ [order]\<rparr>"

section \<open>Side books\<close>

text \<open>The two comparators: \<open>std::greater<double>\<close> for bids, \<open>std::less<double>\<close> for asks.\<close>

definition greater_cmp :: "double \<Rightarrow> double \<Rightarrow> bool" where
  "greater_cmp a b = double_less b a"

definition less_cmp :: "double \<Rightarrow> double \<Rightarrow> bool" where
  "less_cmp a b = double_less a b"

text \<open>
  Both \<open>operator[]\<close> and \<open>find\<close> start from the lower bound of the key \<open>p\<close>. The tree
  search of the GNU library goes left at a node whose key is not before \<open>p\<close> and right
  otherwise, and ends at the first entry, in iteration order, whose key is not before
  \<open>p\<close>, on every map the book builds: a map whose keys are numbers in strict order, or
  a map of one entry. For a NaN \<open>p\<close> no key is before \<open>p\<close>, so that entry is \<open>begin()\<close>;
  below the one NaN key nothing is ever inserted, since no \<open>p\<close> is before or after it.
  The functions below scan the list for that entry.

  \<open>side[p].push_back(order)\<close>: \<open>operator[]\<close> takes the lower bound if \<open>p\<close> is not before
  its key, and otherwise (or at \<open>end()\<close>) inserts an entry for \<open>p\<close> with an empty list
  there; the handle goes to the tail of the list of the entry.
\<close>

fun map_push_back :: "(double \<Rightarrow> double \<Rightarrow> bool) \<Rightarrow> double \<Rightarrow> handle \<Rightarrow> side_book \<Rightarrow> side_book" where
  "map_push_back cmp p order [] = [(p, [order])]"
| "map_push_back cmp p order ((k, q) # m) =
     (if cmp k p then (k, q) # map_push_back cmp p order m
      else if cmp p k then (p, [order]) # (k, q) # m
      else (k, q @ [order]) # m)"

text \<open>
  The body of one branch of \<open>remove_order_from_book\<close>: \<open>find(p)\<close>, which is the lower
  bound if \<open>p\<close> is not before its key and \<open>end()\<close> otherwise; when a level is found,
  \<open>std::list::remove\<close> (every occurrence of the pointer) on its list and \<open>erase\<close> of the
  level if the list is now empty. For a NaN \<open>p\<close> the level found is \<open>begin()\<close>, whatever
  it holds.
\<close>

fun map_remove :: "(double \<Rightarrow> double \<Rightarrow> bool) \<Rightarrow> double \<Rightarrow> handle \<Rightarrow> side_book \<Rightarrow> side_book" where
  "map_remove cmp p order [] = []"
| "map_remove cmp p order ((k, q) # m) =
     (if cmp k p then (k, q) # map_remove cmp p order m
      else if cmp p k then (k, q) # m
      else if removeAll order q = [] then m
      else (k, removeAll order q) # m)"

section \<open>The order book\<close>

definition OrderBook_init :: "nat \<Rightarrow> (handle \<Rightarrow> Order) \<Rightarrow> OrderBook" where
  "OrderBook_init pool_size raw =
     \<lparr>pool = MemoryPool_init pool_size raw, bids = [], asks = [], order_lookup = Map.empty\<rparr>"

definition remove_order_from_book :: "handle \<Rightarrow> OrderBook \<Rightarrow> OrderBook" where
  "remove_order_from_book order s =
     (if is_buy (memory (pool s) order)
      then s\<lparr>bids := map_remove greater_cmp (price (memory (pool s) order)) order (bids s)\<rparr>
      else s\<lparr>asks := map_remove less_cmp (price (memory (pool s) order)) order (asks s)\<rparr>)"

text \<open>\<open>order->quantity = q\<close> through a pointer into the pool.\<close>

definition set_quantity :: "handle \<Rightarrow> 64 word \<Rightarrow> OrderBook \<Rightarrow> OrderBook" where
  "set_quantity order q s =
     s\<lparr>pool := (pool s)\<lparr>memory := (memory (pool s))
          (order := (memory (pool s) order)\<lparr>quantity := q\<rparr>)\<rparr>\<rparr>"

text \<open>
  What \<open>try_match\<close> does with a filled order besides popping it from its list:
  \<open>order_lookup.erase(order->order_id); pool.deallocate(order)\<close>.
\<close>

definition release :: "handle \<Rightarrow> OrderBook \<Rightarrow> OrderBook" where
  "release order s =
     s\<lparr>order_lookup := (order_lookup s)(order_id (memory (pool s) order) := None),
       pool := deallocate order (pool s)\<rparr>"

text \<open>
  The body of the \<open>while\<close> loop of \<open>try_match\<close> past its two \<open>break\<close>s, for the
  best levels \<open>(best_bid_price, bid_order # bid_tl)\<close> and
  \<open>(best_ask_price, ask_order # ask_tl)\<close> and the other levels \<open>bids_rest\<close> and
  \<open>asks_rest\<close>: the trade printed and the book after the iteration. The two quantities
  are decremented one after the other and tested afterwards, through the pointers, as in
  the source.
\<close>

definition match_body ::
  "double \<Rightarrow> handle \<Rightarrow> handle list \<Rightarrow> side_book \<Rightarrow> double \<Rightarrow> handle \<Rightarrow> handle list \<Rightarrow> side_book
     \<Rightarrow> OrderBook \<Rightarrow> trade \<times> OrderBook" where
  "match_body best_bid_price bid_order bid_tl bids_rest best_ask_price ask_order ask_tl asks_rest s =
     (let b = memory (pool s) bid_order;
          a = memory (pool s) ask_order;
          mprice = (if timestamp_ns b < timestamp_ns a then price b else price a);
          mqty = min (quantity b) (quantity a);
          t = \<lparr>match_qty = mqty, match_price = mprice,
               buy_id = order_id b, sell_id = order_id a\<rparr>;
          s1 = set_quantity bid_order (quantity (memory (pool s) bid_order) - mqty) s;
          s2 = set_quantity ask_order (quantity (memory (pool s1) ask_order) - mqty) s1;
          bid_filled = (quantity (memory (pool s2) bid_order) = 0);
          s3 = (if bid_filled then release bid_order s2 else s2);
          bid_orders = (if bid_filled then bid_tl else bid_order # bid_tl);
          ask_filled = (quantity (memory (pool s3) ask_order) = 0);
          s4 = (if ask_filled then release ask_order s3 else s3);
          ask_orders = (if ask_filled then ask_tl else ask_order # ask_tl);
          s5 = s4\<lparr>bids := (if bid_orders = [] then bids_rest
                            else (best_bid_price, bid_orders) # bids_rest)\<rparr>;
          s6 = s5\<lparr>asks := (if ask_orders = [] then asks_rest
                            else (best_ask_price, ask_orders) # asks_rest)\<rparr>
      in (t, s6))"

text \<open>
  One iteration of the loop. \<open>None\<close>: the loop is left, because its condition fails
  (a side is empty) or one of the two \<open>break\<close>s is taken (the best prices do not cross,
  or the list of a best level is empty).
\<close>

definition match_step :: "OrderBook \<Rightarrow> (trade \<times> OrderBook) option" where
  "match_step s =
     (case bids s of [] \<Rightarrow> None | (best_bid_price, bid_orders) # bids_rest \<Rightarrow>
      (case asks s of [] \<Rightarrow> None | (best_ask_price, ask_orders) # asks_rest \<Rightarrow>
        if double_less best_bid_price best_ask_price then None
        else
         (case bid_orders of [] \<Rightarrow> None | bid_order # bid_tl \<Rightarrow>
          (case ask_orders of [] \<Rightarrow> None | ask_order # ask_tl \<Rightarrow>
            Some (match_body best_bid_price bid_order bid_tl bids_rest
                    best_ask_price ask_order ask_tl asks_rest s)))))"

text \<open>
  \<open>try_match\<close>: the loop, returning the trades in the order printed and the final book.
  \<open>None\<close> stands for a loop that never ends.
\<close>

partial_function (option) try_match :: "OrderBook \<Rightarrow> (trade list \<times> OrderBook) option" where
  "try_match s =
     (case match_step s of
        None \<Rightarrow> Some ([], s)
      | Some (t, s') \<Rightarrow>
          Option.bind (try_match s') (\<lambda>(ts, s''). Some (t # ts, s'')))"

text \<open>
  \<open>add_order\<close> between the allocation and the call of \<open>try_match\<close>, for the slot
  \<open>new_order\<close> and the pool \<open>pool'\<close> that \<open>allocate\<close> returned and the record \<open>new\<close>
  written to the slot: the slot is filled, entered in the lookup table under its
  identifier (replacing an entry with the same key) and queued on its side.
\<close>

definition insert_order :: "handle \<Rightarrow> MemoryPool \<Rightarrow> Order \<Rightarrow> OrderBook \<Rightarrow> OrderBook" where
  "insert_order new_order pool' new s =
     (let s1 = s\<lparr>pool := pool'\<lparr>memory := (memory pool')(new_order := new)\<rparr>\<rparr>;
          s2 = s1\<lparr>order_lookup := (order_lookup s1)(order_id new \<mapsto> new_order)\<rparr>
      in if is_buy new
         then s2\<lparr>bids := map_push_back greater_cmp (price new) new_order (bids s2)\<rparr>
         else s2\<lparr>asks := map_push_back less_cmp (price new) new_order (asks s2)\<rparr>)"

text \<open>
  \<open>add_order\<close>. \<open>now\<close> is what \<open>get_timestamp_ns()\<close> returns if it is called. The
  exception of \<open>allocate\<close> leaves the function at once; the result then pairs the error
  with the book as it is at that point.
\<close>

definition add_order :: "Order \<Rightarrow> 64 word \<Rightarrow> OrderBook \<Rightarrow> ((error + trade list) \<times> OrderBook) option" where
  "add_order order now s =
     (case allocate (pool s) of
        Inl e \<Rightarrow> Some (Inl e, s)
      | Inr (new_order, pool') \<Rightarrow>
          let new = (if timestamp_ns order = 0 then order\<lparr>timestamp_ns := now\<rparr> else order)
          in (case try_match (insert_order new_order pool' new s) of
                None \<Rightarrow> None
              | Some (ts, s') \<Rightarrow> Some (Inr ts, s')))"

definition cancel_order :: "64 word \<Rightarrow> OrderBook \<Rightarrow> bool \<times> OrderBook" where
  "cancel_order oid s =
     (case order_lookup s oid of
        None \<Rightarrow> (False, s)
      | Some order \<Rightarrow>
          let s1 = remove_order_from_book order s;
              s2 = s1\<lparr>pool := deallocate order (pool s1)\<rparr>;
              s3 = s2\<lparr>order_lookup := (order_lookup s2)(oid := None)\<rparr>
          in (True, s3))"

text \<open>
  \<open>amend_order\<close>. \<open>now\<close> is the clock reading taken for the amended order, \<open>now'\<close> the
  one \<open>add_order\<close> takes if that reading was zero.
\<close>

definition amend_order ::
  "64 word \<Rightarrow> double \<Rightarrow> 64 word \<Rightarrow> 64 word \<Rightarrow> 64 word \<Rightarrow> OrderBook
     \<Rightarrow> ((error + bool \<times> trade list) \<times> OrderBook) option" where
  "amend_order oid new_price new_quantity now now' s =
     (case order_lookup s oid of
        None \<Rightarrow> Some (Inr (False, []), s)
      | Some order \<Rightarrow>
          if double_ne (price (memory (pool s) order)) new_price then
            let amended_order = (memory (pool s) order)
                  \<lparr>price := new_price, quantity := new_quantity, timestamp_ns := now\<rparr>;
                s1 = snd (cancel_order oid s)
            in (case add_order amended_order now' s1 of
                  None \<Rightarrow> None
                | Some (Inl e, s2) \<Rightarrow> Some (Inl e, s2)
                | Some (Inr ts, s2) \<Rightarrow> Some (Inr (True, ts), s2))
          else Some (Inr (True, []), set_quantity order new_quantity s))"

section \<open>Snapshot\<close>

text \<open>The inner loop: \<open>total_qty += order->quantity\<close> over the list of a level.\<close>

fun sum_level :: "(handle \<Rightarrow> Order) \<Rightarrow> handle list \<Rightarrow> 64 word \<Rightarrow> 64 word" where
  "sum_level m [] total_qty = total_qty"
| "sum_level m (order # orders) total_qty = sum_level m orders (total_qty + quantity (m order))"

text \<open>The outer loop over one side, with its counter and the output vector.\<close>

fun snapshot_side ::
  "(handle \<Rightarrow> Order) \<Rightarrow> nat \<Rightarrow> side_book \<Rightarrow> nat \<Rightarrow> PriceLevel list \<Rightarrow> PriceLevel list" where
  "snapshot_side m depth [] count out = out"
| "snapshot_side m depth ((p, orders) # rest) count out =
     (if count \<ge> depth then out
      else snapshot_side m depth rest (count + 1)
             (out @ [\<lparr>PriceLevel.price = p, total_quantity = sum_level m orders 0\<rparr>]))"

text \<open>
  \<open>get_snapshot\<close> is \<open>const\<close>: it returns the two output vectors, given their contents
  on entry, and no book.
\<close>

definition get_snapshot ::
  "nat \<Rightarrow> PriceLevel list \<Rightarrow> PriceLevel list \<Rightarrow> OrderBook \<Rightarrow> PriceLevel list \<times> PriceLevel list" where
  "get_snapshot depth bids_out asks_out s =
     (let bids_out1 = []; asks_out1 = [];
          bids_out2 = snapshot_side (memory (pool s)) depth (bids s) 0 bids_out1;
          asks_out2 = snapshot_side (memory (pool s)) depth (asks s) 0 asks_out1
      in (bids_out2, asks_out2))"

section \<open>Clients: sequences of public calls\<close>

text \<open>
  A public call with its arguments and the clock readings it consumes, the book a call
  leaves behind (\<open>None\<close> if the call does not return; after the exception of
  \<open>add_order\<close> the caller still holds the book), and a sequence of calls on a book.
\<close>

datatype call =
    Add_order Order "64 word"
  | Cancel_order "64 word"
  | Amend_order "64 word" double "64 word" "64 word" "64 word"
  | Get_snapshot nat "PriceLevel list" "PriceLevel list"

fun call_book :: "call \<Rightarrow> OrderBook \<Rightarrow> OrderBook option" where
  "call_book (Add_order order now) s = map_option snd (add_order order now s)"
| "call_book (Cancel_order oid) s = Some (snd (cancel_order oid s))"
| "call_book (Amend_order oid p q now now') s = map_option snd (amend_order oid p q now now' s)"
| "call_book (Get_snapshot depth bids_out asks_out) s = Some s"

fun run :: "call list \<Rightarrow> OrderBook \<Rightarrow> OrderBook option" where
  "run [] s = Some s"
| "run (c # cs) s = (case call_book c s of None \<Rightarrow> None | Some s' \<Rightarrow> run cs s')"

section \<open>Properties of a book\<close>

text \<open>The handles held by a side book, level by level and in queue order; the live orders.\<close>

definition handles_of :: "side_book \<Rightarrow> handle list" where
  "handles_of m = concat (map snd m)"

definition live_handles :: "OrderBook \<Rightarrow> handle list" where
  "live_handles s = handles_of (bids s) @ handles_of (asks s)"

text \<open>The two orders \<open>try_match\<close> looks at: the front of the list of the first level.\<close>

definition head_bid :: "OrderBook \<Rightarrow> handle" where
  "head_bid s = hd (snd (hd (bids s)))"

definition head_ask :: "OrderBook \<Rightarrow> handle" where
  "head_ask s = hd (snd (hd (asks s)))"

text \<open>P2 of the spec: every bid level is priced strictly below every ask level.\<close>

definition uncrossed :: "OrderBook \<Rightarrow> bool" where
  "uncrossed s = (\<forall>b \<in> set (bids s). \<forall>a \<in> set (asks s). double_less (fst b) (fst a))"

text \<open>P4 of the spec: every live order has a remaining quantity above zero.\<close>

definition all_positive :: "OrderBook \<Rightarrow> bool" where
  "all_positive s = (\<forall>h \<in> set (live_handles s). 0 < quantity (memory (pool s) h))"

text \<open>An incoming order crosses the book: some level of the opposite side is in its reach.\<close>

definition crosses :: "Order \<Rightarrow> OrderBook \<Rightarrow> bool" where
  "crosses order s =
     (if is_buy order then (\<exists>a \<in> set (asks s). \<not> double_less (price order) (fst a))
      else (\<exists>b \<in> set (bids s). \<not> double_less (fst b) (price order)))"

text \<open>A call that passes no zero quantity; a call that passes no NaN price.\<close>

fun positive_call :: "call \<Rightarrow> bool" where
  "positive_call (Add_order order now) = (0 < quantity order)"
| "positive_call (Amend_order oid p q now now') = (0 < q)"
| "positive_call _ = True"

fun number_call :: "call \<Rightarrow> bool" where
  "number_call (Add_order order now) = (price order \<noteq> NaN)"
| "number_call (Amend_order oid p q now now') = (p \<noteq> NaN)"
| "number_call _ = True"


text \<open>
  What holds of every book, whatever the calls passed: both maps are in the strict order
  of their comparators (so a NaN key is the only key of its map) and no level is empty.
\<close>

definition shape_inv :: "OrderBook \<Rightarrow> bool" where
  "shape_inv s =
     (sorted_wrt greater_cmp (map fst (bids s)) \<and>
      sorted_wrt less_cmp (map fst (asks s)) \<and>
      (\<forall>l \<in> set (bids s). snd l \<noteq> []) \<and>
      (\<forall>l \<in> set (asks s). snd l \<noteq> []))"

text \<open>
  The representation invariant of a book that was never passed a NaN price: besides the
  above, no handle is held twice or is both queued and free, every queued order sits on
  its own side at its own price, which is a number, and the lookup table points to queued
  orders under their own identifiers.
\<close>

definition located :: "bool \<Rightarrow> (handle \<Rightarrow> Order) \<Rightarrow> side_book \<Rightarrow> bool" where
  "located buy m sb =
     (\<forall>l \<in> set sb. \<forall>h \<in> set (snd l).
        is_buy (m h) = buy \<and> price (m h) = fst l \<and> fst l \<noteq> NaN)"

definition lookup_sound :: "OrderBook \<Rightarrow> bool" where
  "lookup_sound s =
     (\<forall>i h. order_lookup s i = Some h \<longrightarrow>
        h \<in> set (live_handles s) \<and> order_id (memory (pool s) h) = i)"

definition book_inv :: "OrderBook \<Rightarrow> bool" where
  "book_inv s =
     (shape_inv s \<and>
      distinct (live_handles s @ free_list (pool s)) \<and>
      located True (memory (pool s)) (bids s) \<and>
      located False (memory (pool s)) (asks s) \<and>
      lookup_sound s)"

text \<open>
  The book on which \<open>add_order\<close> runs \<open>try_match\<close> when the pool has a free slot, and
  the book after \<open>k\<close> iterations of the loop (\<open>None\<close> if the loop is left before).
\<close>

definition entering :: "Order \<Rightarrow> 64 word \<Rightarrow> OrderBook \<Rightarrow> OrderBook" where
  "entering order now s =
     insert_order (last (free_list (pool s))) ((pool s)\<lparr>free_list := butlast (free_list (pool s))\<rparr>)
       (if timestamp_ns order = 0 then order\<lparr>timestamp_ns := now\<rparr> else order) s"

fun loop_after :: "nat \<Rightarrow> OrderBook \<Rightarrow> OrderBook option" where
  "loop_after 0 s = Some s"
| "loop_after (Suc k) s =
     (case match_step s of None \<Rightarrow> None | Some (t, s1) \<Rightarrow> loop_after k s1)"

section \<open>Example books\<close>

definition raw0 :: "handle \<Rightarrow> Order" where
  "raw0 = (\<lambda>_. \<lparr>order_id = 0, is_buy = False, price = Num 0, quantity = 0, timestamp_ns = 0\<rparr>)"

definition ex_ask :: Order where
  "ex_ask = \<lparr>order_id = 1, is_buy = False, price = Num 100, quantity = 10, timestamp_ns = 5\<rparr>"

definition ex_bid :: Order where
  "ex_bid = \<lparr>order_id = 2, is_buy = True, price = Num 101, quantity = 10, timestamp_ns = 5\<rparr>"

definition ex_low_bid :: Order where
  "ex_low_bid = \<lparr>order_id = 3, is_buy = True, price = Num 99, quantity = 7, timestamp_ns = 6\<rparr>"

definition ex_zero_bid :: Order where
  "ex_zero_bid = \<lparr>order_id = 4, is_buy = True, price = Num 98, quantity = 0, timestamp_ns = 8\<rparr>"

text \<open>The book after \<open>add_order(ex_ask)\<close> on a new book with three slots.\<close>

definition book1 :: OrderBook where
  "book1 = \<lparr>pool = \<lparr>memory = raw0(2 := ex_ask), capacity = 3, free_list = [0, 1]\<rparr>,
            bids = [], asks = [(Num 100, [2])], order_lookup = [1 \<mapsto> 2]\<rparr>"

text \<open>The book after \<open>add_order(ex_ask); add_order(ex_low_bid)\<close> on a new book with two slots.\<close>

definition book2 :: OrderBook where
  "book2 = \<lparr>pool = \<lparr>memory = raw0(1 := ex_ask, 0 := ex_low_bid), capacity = 2, free_list = []\<rparr>,
            bids = [(Num 99, [0])], asks = [(Num 100, [1])], order_lookup = [1 \<mapsto> 1, 3 \<mapsto> 0]\<rparr>"

text \<open>
  \<open>book1\<close> once \<open>add_order(ex_bid)\<close> has queued its order and enters \<open>try_match\<close>: the
  two heads have the same timestamp.
\<close>

definition tie_book :: OrderBook where
  "tie_book = \<lparr>pool = \<lparr>memory = raw0(2 := ex_ask, 1 := ex_bid), capacity = 3, free_list = [0]\<rparr>,
               bids = [(Num 101, [1])], asks = [(Num 100, [2])], order_lookup = [1 \<mapsto> 2, 2 \<mapsto> 1]\<rparr>"

text \<open>\<open>tie_book\<close> after the one iteration of the loop that trades both orders away.\<close>

definition traded_book :: OrderBook where
  "traded_book =
     \<lparr>pool = \<lparr>memory = raw0(2 := ex_ask\<lparr>quantity := 0\<rparr>, 1 := ex_bid\<lparr>quantity := 0\<rparr>),
              capacity = 3, free_list = [0, 1, 2]\<rparr>,
      bids = [], asks = [], order_lookup = Map.empty\<rparr>"

text \<open>\<open>book1\<close> after \<open>amend_order(1, 100, 0)\<close>.\<close>

definition zero_amend_book :: OrderBook where
  "zero_amend_book =
     \<lparr>pool = \<lparr>memory = raw0(2 := ex_ask\<lparr>quantity := 0\<rparr>), capacity = 3, free_list = [0, 1]\<rparr>,
      bids = [], asks = [(Num 100, [2])], order_lookup = [1 \<mapsto> 2]\<rparr>"

text \<open>\<open>book1\<close> after \<open>add_order(ex_zero_bid)\<close>.\<close>

definition zero_bid_book :: OrderBook where
  "zero_bid_book =
     \<lparr>pool = \<lparr>memory = raw0(2 := ex_ask, 1 := ex_zero_bid), capacity = 3, free_list = [0]\<rparr>,
      bids = [(Num 98, [1])], asks = [(Num 100, [2])], order_lookup = [1 \<mapsto> 2, 4 \<mapsto> 1]\<rparr>"

text \<open>
  Orders for a book that is passed a NaN price: three bids, the second at NaN, and an ask
  that reaches all of them.
\<close>

definition nan_bid1 :: Order where
  "nan_bid1 = \<lparr>order_id = 1, is_buy = True, price = Num 100, quantity = 10, timestamp_ns = 1\<rparr>"

definition nan_bid2 :: Order where
  "nan_bid2 = \<lparr>order_id = 2, is_buy = True, price = NaN, quantity = 10, timestamp_ns = 2\<rparr>"

definition nan_bid3 :: Order where
  "nan_bid3 = \<lparr>order_id = 3, is_buy = True, price = Num 101, quantity = 10, timestamp_ns = 3\<rparr>"

definition nan_sell :: Order where
  "nan_sell = \<lparr>order_id = 5, is_buy = False, price = Num 100, quantity = 30, timestamp_ns = 4\<rparr>"

text \<open>
  The book after \<open>add_order(nan_bid1); add_order(nan_bid2); add_order(nan_bid3);
  cancel_order(2)\<close> on a new book with four slots. The NaN bid was queued at 100, the
  best level when it came; its cancel looked for it at 101, the best level then, and
  freed slot 2, which is still queued at 100.
\<close>

definition dangling_book :: OrderBook where
  "dangling_book =
     \<lparr>pool = \<lparr>memory = raw0(3 := nan_bid1, 2 := nan_bid2, 1 := nan_bid3),
              capacity = 4, free_list = [0, 2]\<rparr>,
      bids = [(Num 101, [1]), (Num 100, [3, 2])], asks = [],
      order_lookup = [1 \<mapsto> 3, 3 \<mapsto> 1]\<rparr>"

text \<open>
  \<open>dangling_book\<close> once \<open>add_order(nan_sell)\<close> has taken slot 2 again and enters
  \<open>try_match\<close>, and the books after one, two and three iterations of the loop. From the
  second on, slot 2 is the head of both sides.
\<close>

definition loop_book0 :: OrderBook where
  "loop_book0 =
     \<lparr>pool = \<lparr>memory = raw0(3 := nan_bid1, 2 := nan_sell, 1 := nan_bid3),
              capacity = 4, free_list = [0]\<rparr>,
      bids = [(Num 101, [1]), (Num 100, [3, 2])], asks = [(Num 100, [2])],
      order_lookup = [1 \<mapsto> 3, 3 \<mapsto> 1, 5 \<mapsto> 2]\<rparr>"

definition loop_book1 :: OrderBook where
  "loop_book1 =
     \<lparr>pool = \<lparr>memory = raw0(3 := nan_bid1, 2 := nan_sell\<lparr>quantity := 20\<rparr>,
                             1 := nan_bid3\<lparr>quantity := 0\<rparr>),
              capacity = 4, free_list = [0, 1]\<rparr>,
      bids = [(Num 100, [3, 2])], asks = [(Num 100, [2])],
      order_lookup = [1 \<mapsto> 3, 5 \<mapsto> 2]\<rparr>"

definition loop_book_a :: OrderBook where
  "loop_book_a =
     \<lparr>pool = \<lparr>memory = raw0(3 := nan_bid1\<lparr>quantity := 0\<rparr>, 2 := nan_sell\<lparr>quantity := 10\<rparr>,
                             1 := nan_bid3\<lparr>quantity := 0\<rparr>),
              capacity = 4, free_list = [0, 1, 3]\<rparr>,
      bids = [(Num 100, [2])], asks = [(Num 100, [2])],
      order_lookup = [5 \<mapsto> 2]\<rparr>"

definition loop_book_b :: OrderBook where
  "loop_book_b =
     \<lparr>pool = \<lparr>memory = raw0(3 := nan_bid1\<lparr>quantity := 0\<rparr>,
                             2 := nan_sell\<lparr>quantity := 18446744073709551606\<rparr>,
                             1 := nan_bid3\<lparr>quantity := 0\<rparr>),
              capacity = 4, free_list = [0, 1, 3]\<rparr>,
      bids = [(Num 100, [2])], asks = [(Num 100, [2])],
      order_lookup = [5 \<mapsto> 2]\<rparr>"

text \<open>
  The book after \<open>add_order(nan_bid2); add_order(nan_bid3)\<close> on a new book with two slots
  (the one level has the key NaN and takes every bid), and that book after
  \<open>amend_order(2, NaN, 10)\<close> with the clock at 9.
\<close>

definition nan_level_book :: OrderBook where
  "nan_level_book =
     \<lparr>pool = \<lparr>memory = raw0(1 := nan_bid2, 0 := nan_bid3), capacity = 2, free_list = []\<rparr>,
      bids = [(NaN, [1, 0])], asks = [], order_lookup = [2 \<mapsto> 1, 3 \<mapsto> 0]\<rparr>"

definition nan_amended_book :: OrderBook where
  "nan_amended_book =
     \<lparr>pool = \<lparr>memory = raw0(1 := nan_bid2\<lparr>timestamp_ns := 9\<rparr>, 0 := nan_bid3),
              capacity = 2, free_list = []\<rparr>,
      bids = [(NaN, [0, 1])], asks = [], order_lookup = [2 \<mapsto> 1, 3 \<mapsto> 0]\<rparr>"

text \<open>Two asks of \<open>2^63\<close> at one price, and the book after adding both to a new book.\<close>

definition big_ask1 :: Order where
  "big_ask1 = \<lparr>order_id = 1, is_buy = False, price = Num 100,
                quantity = 9223372036854775808, timestamp_ns = 1\<rparr>"

definition big_ask2 :: Order where
  "big_ask2 = \<lparr>order_id = 2, is_buy = False, price = Num 100,
                quantity = 9223372036854775808, timestamp_ns = 2\<rparr>"

definition wrap_book :: OrderBook where
  "wrap_book =
     \<lparr>pool = \<lparr>memory = raw0(1 := big_ask1, 0 := big_ask2), capacity = 2, free_list = []\<rparr>,
      bids = [], asks = [(Num 100, [1, 0])], order_lookup = [1 \<mapsto> 1, 2 \<mapsto> 0]\<rparr>"

section \<open>Evaluation\<close>

declare try_match.simps [code]

lemmas book_defs =
  add_order_def insert_order_def cancel_order_def amend_order_def allocate_def deallocate_def
  remove_order_from_book_def set_quantity_def release_def match_step_def match_body_def
  OrderBook_init_def MemoryPool_init_def greater_cmp_def less_cmp_def Let_def

lemmas example_defs =
  raw0_def ex_ask_def ex_bid_def ex_low_bid_def ex_zero_bid_def book1_def book2_def tie_book_def
  traded_book_def zero_amend_book_def zero_bid_book_def
  nan_bid1_def nan_bid2_def nan_bid3_def nan_sell_def dangling_book_def loop_book0_def
  loop_book1_def loop_book_a_def loop_book_b_def nan_level_book_def nan_amended_book_def
  big_ask1_def big_ask2_def wrap_book_def

lemma upt_2: "[0..<2] = [0, 1::nat]"
  by code_simp

lemma upt_4: "[0..<4] = [0, 1, 2, 3::nat]"
  by code_simp

lemma upt_3: "[0..<3] = [0, 1, 2::nat]"
  by code_simp

lemma run_book1: "run [Add_order ex_ask 0] (OrderBook_init 3 raw0) = Some book1"
  by (simp add: book_defs example_defs try_match.simps upt_3)

lemma run_book2:
  "run [Add_order ex_ask 0, Add_order ex_low_bid 0] (OrderBook_init 2 raw0) = Some book2"
  by (simp add: book_defs example_defs try_match.simps upt_2)

section \<open>Facts about doubles and side books\<close>

lemma double_less_NaN [simp]: "\<not> double_less a NaN" "\<not> double_less NaN a"
  by (cases a; simp)+

lemma double_less_irrefl [simp]: "\<not> double_less a a"
  by (cases a) simp_all

lemma double_less_trans: "double_less a b \<Longrightarrow> double_less b c \<Longrightarrow> double_less a c"
  by (cases a; cases b; cases c) simp_all

lemma double_less_total:
  "a \<noteq> NaN \<Longrightarrow> b \<noteq> NaN \<Longrightarrow> \<not> double_less a b \<Longrightarrow> \<not> double_less b a \<Longrightarrow> a = b"
  by (cases a; cases b) simp_all

lemma double_ne_iff: "double_ne a b \<longleftrightarrow> a = NaN \<or> b = NaN \<or> a \<noteq> b"
  by (cases a; cases b) simp_all

lemma cmp_irrefl:
  assumes "cmp = less_cmp \<or> cmp = greater_cmp"
  shows "\<not> cmp a a"
  using assms by (auto simp: less_cmp_def greater_cmp_def)

lemma cmp_trans:
  assumes "cmp = less_cmp \<or> cmp = greater_cmp" and "cmp a b" and "cmp b c"
  shows "cmp a c"
  using assms by (auto simp: less_cmp_def greater_cmp_def intro: double_less_trans)

lemma cmp_total:
  assumes "cmp = less_cmp \<or> cmp = greater_cmp"
    and "a \<noteq> NaN" and "b \<noteq> NaN" and "\<not> cmp a b" and "\<not> cmp b a"
  shows "a = b"
  using assms by (auto simp: less_cmp_def greater_cmp_def dest: double_less_total)

lemma handles_of_simps [simp]:
  "handles_of [] = []"
  "handles_of ((k, q) # m) = q @ handles_of m"
  by (simp_all add: handles_of_def)

lemma set_handles_of: "set (handles_of m) = (\<Union>l \<in> set m. set (snd l))"
  by (induction m) auto

lemma located_simps [simp]:
  "located buy mem []"
  "located buy mem ((k, q) # m) =
     ((\<forall>h \<in> set q. is_buy (mem h) = buy \<and> price (mem h) = k \<and> k \<noteq> NaN) \<and> located buy mem m)"
  by (auto simp: located_def)

lemma located_cong:
  "(\<And>h. h \<in> set (handles_of m) \<Longrightarrow> is_buy (mem' h) = is_buy (mem h) \<and> price (mem' h) = price (mem h))
     \<Longrightarrow> located buy mem' m = located buy mem m"
  by (induction m) auto

lemma push_handles_set:
  "set (handles_of (map_push_back cmp p h m)) = insert h (set (handles_of m))"
  by (induction m) (auto split: if_splits)

lemma push_handles_distinct:
  "distinct (handles_of (map_push_back cmp p h m)) =
     (distinct (handles_of m) \<and> h \<notin> set (handles_of m))"
  by (induction m) (auto simp: push_handles_set split: if_splits)

lemma push_keys_subset:
  "fst ` set (map_push_back cmp p h m) \<subseteq> insert p (fst ` set m)"
  by (induction m) (force split: if_splits)+

lemma push_sorted:
  assumes "cmp = less_cmp \<or> cmp = greater_cmp" and "sorted_wrt cmp (map fst m)"
  shows "sorted_wrt cmp (map fst (map_push_back cmp p h m))"
  using assms(2)
proof (induction m)
  case Nil
  then show ?case by simp
next
  case (Cons l m)
  obtain k q where l: "l = (k, q)" by (cases l)
  from Cons.prems have km: "\<forall>x \<in> set m. cmp k (fst x)" and sm: "sorted_wrt cmp (map fst m)"
    by (simp_all add: l)
  show ?case
  proof (cases "cmp k p")
    case True
    have "cmp k (fst x)" if "x \<in> set (map_push_back cmp p h m)" for x
    proof -
      from that push_keys_subset [of cmp p h m] have "fst x = p \<or> fst x \<in> fst ` set m"
        by auto
      with True km show ?thesis by auto
    qed
    with True Cons.IH [OF sm] show ?thesis by (simp add: l)
  next
    case False
    show ?thesis
    proof (cases "cmp p k")
      case True
      have "cmp p (fst x)" if "x \<in> set m" for x
        using cmp_trans [OF assms(1) True] km that by blast
      with True False Cons.prems show ?thesis by (simp add: l)
    next
      case nb: False
      with False Cons.prems show ?thesis by (simp add: l)
    qed
  qed
qed

lemma push_nonempty:
  "\<forall>l \<in> set m. snd l \<noteq> [] \<Longrightarrow> \<forall>l \<in> set (map_push_back cmp p h m). snd l \<noteq> []"
  by (induction m) (fastforce split: if_splits)+

lemma push_located:
  assumes "cmp = less_cmp \<or> cmp = greater_cmp" and "located buy mem m"
    and "\<forall>l \<in> set m. snd l \<noteq> []"
    and "is_buy (mem h) = buy" and "price (mem h) = p" and "p \<noteq> NaN"
  shows "located buy mem (map_push_back cmp p h m)"
  using assms(2,3)
proof (induction m)
  case Nil
  with assms(4-) show ?case by simp
next
  case (Cons l m)
  obtain k q where l: "l = (k, q)" by (cases l)
  show ?case
  proof (cases "cmp k p \<or> cmp p k")
    case True
    with Cons assms(4-) show ?thesis by (auto simp: l)
  next
    case False
    from Cons.prems have "k \<noteq> NaN" by (cases q) (auto simp: l)
    with False assms(6) have "k = p"
      using cmp_total [OF assms(1), of k p] by blast
    with False Cons.prems assms(4-) show ?thesis by (auto simp: l)
  qed
qed

lemma remove_handles_subset:
  "set (handles_of (map_remove cmp p h m)) \<subseteq> set (handles_of m)"
  by (induction m) (auto split: if_splits)

lemma remove_keys_subset:
  "set (map fst (map_remove cmp p h m)) \<subseteq> set (map fst m)"
  by (induction m) (fastforce split: if_splits)+

lemma remove_levels_subset:
  "l \<in> set (map_remove cmp p h m) \<Longrightarrow> \<exists>l' \<in> set m. fst l = fst l' "
  using remove_keys_subset [of cmp p h m] by force

lemma remove_sorted:
  "sorted_wrt cmp (map fst m) \<Longrightarrow> sorted_wrt cmp (map fst (map_remove cmp p h m))"
proof (induction m)
  case Nil
  then show ?case by simp
next
  case (Cons l m)
  obtain k q where l: "l = (k, q)" by (cases l)
  show ?case
    using Cons remove_keys_subset [of cmp p h m] by (fastforce simp: l)
qed

lemma remove_nonempty:
  "\<forall>l \<in> set m. snd l \<noteq> [] \<Longrightarrow> \<forall>l \<in> set (map_remove cmp p h m). snd l \<noteq> []"
  by (induction m) (fastforce split: if_splits)+

lemma remove_distinct:
  "distinct (handles_of m) \<Longrightarrow> distinct (handles_of (map_remove cmp p h m))"
proof (induction m)
  case Nil
  then show ?case by simp
next
  case (Cons l m)
  obtain k q where l: "l = (k, q)" by (cases l)
  show ?case
    using Cons remove_handles_subset [of cmp p h m] by (auto simp: l distinct_removeAll)
qed

lemma remove_located:
  "located buy mem m \<Longrightarrow> located buy mem (map_remove cmp p h m)"
  by (induction m) (auto split: if_splits)

lemma remove_handles_keep:
  "x \<in> set (handles_of m) \<Longrightarrow> x \<noteq> h \<Longrightarrow> x \<in> set (handles_of (map_remove cmp p h m))"
proof (induction m)
  case Nil
  then show ?case by simp
next
  case (Cons l m)
  obtain k q where l: "l = (k, q)" by (cases l)
  have "x \<in> set (removeAll h q)" if "x \<in> set q"
    using that Cons.prems(2) by simp
  then have "removeAll h q \<noteq> []" if "x \<in> set q"
    using that by fastforce
  then show ?case
    using Cons by (auto simp: l)
qed

text \<open>
  On a map of number keys in strict order, the level found for the price of a queued order
  is the order's own, so the order leaves the book.
\<close>

lemma remove_absent:
  assumes "cmp = less_cmp \<or> cmp = greater_cmp"
    and "sorted_wrt cmp (map fst m)" and "located buy mem m" and "price (mem h) = p"
    and "distinct (handles_of m)"
  shows "h \<notin> set (handles_of (map_remove cmp p h m))"
proof (cases "h \<in> set (handles_of m)")
  case False
  with remove_handles_subset [of cmp p h m] show ?thesis by auto
next
  case True
  then obtain l0 where l0: "l0 \<in> set m" "h \<in> set (snd l0)"
    by (auto simp: set_handles_of)
  with assms(3,4) have pn: "p \<noteq> NaN" and l0p: "fst l0 = p"
    by (auto simp: located_def)
  show ?thesis
    using assms(2,3,5) l0 l0p
  proof (induction m)
    case Nil
    then show ?case by simp
  next
    case (Cons l m)
    obtain k q where l: "l = (k, q)" by (cases l)
    from Cons.prems(1) have km: "\<forall>x \<in> set m. cmp k (fst x)" and sm: "sorted_wrt cmp (map fst m)"
      by (simp_all add: l)
    from Cons.prems(2) have lm: "located buy mem m"
      and lq: "\<forall>x \<in> set q. price (mem x) = k \<and> k \<noteq> NaN"
      by (simp_all add: l)
    from Cons.prems(3) have dq: "distinct q" and dm: "distinct (handles_of m)"
      and dj: "set q \<inter> set (handles_of m) = {}"
      by (simp_all add: l)
    show ?case
    proof (cases "l0 = l")
      case True
      with Cons.prems(5,6) l have kp: "k = p" and hq: "h \<in> set q" by auto
      from hq dj have "h \<notin> set (handles_of m)" by auto
      with kp show ?thesis
        using cmp_irrefl [OF assms(1), of p] by (auto simp: l)
    next
      case False
      with Cons.prems(4) have l0m: "l0 \<in> set m" by simp
      with km have "cmp k (fst l0)" by blast
      with Cons.prems(6) have ckp: "cmp k p" by simp
      have hq: "h \<notin> set q"
        using dj l0m Cons.prems(5) by (auto simp: set_handles_of)
      have "h \<notin> set (handles_of (map_remove cmp p h m))"
        using sm lm dm l0m Cons.prems(5,6) by (rule Cons.IH)
      with ckp hq show ?thesis by (simp add: l)
    qed
  qed
qed

text \<open>Removing what was just pushed gives the map back.\<close>

lemma remove_push:
  assumes "cmp = less_cmp \<or> cmp = greater_cmp"
    and "\<forall>l \<in> set m. snd l \<noteq> []" and "h \<notin> set (handles_of m)"
  shows "map_remove cmp p h (map_push_back cmp p h m) = m"
  using assms(2-)
proof (induction m)
  case Nil
  then show ?case using cmp_irrefl [OF assms(1), of p] by simp
next
  case (Cons l m)
  obtain k q where l: "l = (k, q)" by (cases l)
  show ?case
    using Cons cmp_irrefl [OF assms(1), of p] by (auto simp: l)
qed

section \<open>Facts about one iteration of the matching loop\<close>

lemma set_quantity_sel [simp]:
  "bids (set_quantity h q s) = bids s"
  "asks (set_quantity h q s) = asks s"
  "order_lookup (set_quantity h q s) = order_lookup s"
  "free_list (pool (set_quantity h q s)) = free_list (pool s)"
  "capacity (pool (set_quantity h q s)) = capacity (pool s)"
  "memory (pool (set_quantity h q s)) = (memory (pool s))(h := (memory (pool s) h)\<lparr>quantity := q\<rparr>)"
  by (simp_all add: set_quantity_def)

lemma release_sel [simp]:
  "bids (release h s) = bids s"
  "asks (release h s) = asks s"
  "order_lookup (release h s) = (order_lookup s)(order_id (memory (pool s) h) := None)"
  "free_list (pool (release h s)) = free_list (pool s) @ [h]"
  "capacity (pool (release h s)) = capacity (pool s)"
  "memory (pool (release h s)) = memory (pool s)"
  by (simp_all add: release_def deallocate_def)

lemma match_body_cases:
  assumes "match_body pb b bq br pa a aq ar s = (t, s')"
  obtains fb fa where
    "bids s' = (if fb then (if bq = [] then br else (pb, bq) # br) else (pb, b # bq) # br)"
    "asks s' = (if fa then (if aq = [] then ar else (pa, aq) # ar) else (pa, a # aq) # ar)"
    "free_list (pool s') =
       free_list (pool s) @ (if fb then [b] else []) @ (if fa then [a] else [])"
    "capacity (pool s') = capacity (pool s)"
    "\<And>h. order_id (memory (pool s') h) = order_id (memory (pool s) h) \<and>
          is_buy (memory (pool s') h) = is_buy (memory (pool s) h) \<and>
          price (memory (pool s') h) = price (memory (pool s) h) \<and>
          timestamp_ns (memory (pool s') h) = timestamp_ns (memory (pool s) h)"
    "\<And>h. h \<noteq> b \<Longrightarrow> h \<noteq> a \<Longrightarrow> memory (pool s') h = memory (pool s) h"
    "fb = (quantity (memory (pool s') b) = 0)" "fa = (quantity (memory (pool s') a) = 0)"
    "b \<noteq> a \<Longrightarrow> fb \<or> fa"
    "\<And>i. order_lookup s' i =
       (if (fb \<and> i = order_id (memory (pool s) b)) \<or> (fa \<and> i = order_id (memory (pool s) a))
        then None else order_lookup s i)"
proof -
  define mq where "mq = min (quantity (memory (pool s) b)) (quantity (memory (pool s) a))"
  define s1 where "s1 = set_quantity b (quantity (memory (pool s) b) - mq) s"
  define s2 where "s2 = set_quantity a (quantity (memory (pool s1) a) - mq) s1"
  define fb where "fb = (quantity (memory (pool s2) b) = 0)"
  define s3 where "s3 = (if fb then release b s2 else s2)"
  define fa where "fa = (quantity (memory (pool s3) a) = 0)"
  define s4 where "s4 = (if fa then release a s3 else s3)"
  have "snd (match_body pb b bq br pa a aq ar s) =
          s4\<lparr>bids := (if (if fb then bq else b # bq) = [] then br
                        else (pb, (if fb then bq else b # bq)) # br)\<rparr>
            \<lparr>asks := (if (if fa then aq else a # aq) = [] then ar
                        else (pa, (if fa then aq else a # aq)) # ar)\<rparr>"
    unfolding match_body_def s4_def fa_def s3_def fb_def s2_def s1_def mq_def
    by (simp only: Let_def snd_conv)
  with assms have s': "s' = s4\<lparr>bids := (if (if fb then bq else b # bq) = [] then br
                              else (pb, (if fb then bq else b # bq)) # br)\<rparr>
                  \<lparr>asks := (if (if fa then aq else a # aq) = [] then ar
                              else (pa, (if fa then aq else a # aq)) # ar)\<rparr>"
    by simp
  have m1: "memory (pool s1) = (memory (pool s))(b := (memory (pool s) b)\<lparr>quantity := quantity (memory (pool s) b) - mq\<rparr>)"
    by (simp add: s1_def)
  have m2: "memory (pool s2) = (memory (pool s1))(a := (memory (pool s1) a)\<lparr>quantity := quantity (memory (pool s1) a) - mq\<rparr>)"
    by (simp add: s2_def)
  have m3: "memory (pool s3) = memory (pool s2)"
    by (simp add: s3_def)
  have m4: "memory (pool s') = memory (pool s2)"
    by (simp add: s' s4_def m3)
  have disj: "fb \<or> fa" if "b \<noteq> a"
    using that by (simp add: fb_def fa_def m3 m2 m1 mq_def min_def)
  have ids: "order_id (memory (pool s2) h) = order_id (memory (pool s) h)" for h
    by (simp add: m2 m1)
  have l3: "order_lookup s3 i = (if fb \<and> i = order_id (memory (pool s) b) then None else order_lookup s i)" for i
    by (simp add: s3_def ids s2_def s1_def)
  have l4: "order_lookup s4 i =
       (if (fb \<and> i = order_id (memory (pool s) b)) \<or> (fa \<and> i = order_id (memory (pool s) a))
        then None else order_lookup s i)" for i
    by (simp add: s4_def l3 m3 ids)
  show ?thesis
  proof (rule that [of fb fa])
    show "b \<noteq> a \<Longrightarrow> fb \<or> fa" by (rule disj)
    show "bids s' = (if fb then (if bq = [] then br else (pb, bq) # br) else (pb, b # bq) # br)"
      by (simp add: s')
    show "asks s' = (if fa then (if aq = [] then ar else (pa, aq) # ar) else (pa, a # aq) # ar)"
      by (simp add: s')
    show "free_list (pool s') =
       free_list (pool s) @ (if fb then [b] else []) @ (if fa then [a] else [])"
      by (simp add: s' s4_def s3_def s2_def s1_def)
    show "capacity (pool s') = capacity (pool s)"
      by (simp add: s' s4_def s3_def s2_def s1_def)
    show "order_id (memory (pool s') h) = order_id (memory (pool s) h) \<and>
          is_buy (memory (pool s') h) = is_buy (memory (pool s) h) \<and>
          price (memory (pool s') h) = price (memory (pool s) h) \<and>
          timestamp_ns (memory (pool s') h) = timestamp_ns (memory (pool s) h)" for h
      by (simp add: m4 m2 m1)
    show "h \<noteq> b \<Longrightarrow> h \<noteq> a \<Longrightarrow> memory (pool s') h = memory (pool s) h" for h
      by (simp add: m4 m2 m1)
    show "fb = (quantity (memory (pool s') b) = 0)"
      by (simp add: m4 fb_def)
    show "fa = (quantity (memory (pool s') a) = 0)"
      by (simp add: m4 m3 fa_def)
    show "order_lookup s' i =
       (if (fb \<and> i = order_id (memory (pool s) b)) \<or> (fa \<and> i = order_id (memory (pool s) a))
        then None else order_lookup s i)" for i
      by (simp add: s' l4)
  qed
qed

lemma match_step_Some_iff:
  "match_step s = Some r \<longleftrightarrow>
     (\<exists>pb b bq br pa a aq ar. bids s = (pb, b # bq) # br \<and> asks s = (pa, a # aq) # ar \<and>
        \<not> double_less pb pa \<and> r = match_body pb b bq br pa a aq ar s)"
  by (auto simp: match_step_def split: list.splits)

lemma match_step_cases:
  assumes "match_step s = Some (t, s')"
  obtains pb b bq br pa a aq ar fb fa where
    "bids s = (pb, b # bq) # br" "asks s = (pa, a # aq) # ar" "\<not> double_less pb pa"
    "bids s' = (if fb then (if bq = [] then br else (pb, bq) # br) else (pb, b # bq) # br)"
    "asks s' = (if fa then (if aq = [] then ar else (pa, aq) # ar) else (pa, a # aq) # ar)"
    "free_list (pool s') =
       free_list (pool s) @ (if fb then [b] else []) @ (if fa then [a] else [])"
    "capacity (pool s') = capacity (pool s)"
    "\<And>h. order_id (memory (pool s') h) = order_id (memory (pool s) h) \<and>
          is_buy (memory (pool s') h) = is_buy (memory (pool s) h) \<and>
          price (memory (pool s') h) = price (memory (pool s) h) \<and>
          timestamp_ns (memory (pool s') h) = timestamp_ns (memory (pool s) h)"
    "\<And>h. h \<noteq> b \<Longrightarrow> h \<noteq> a \<Longrightarrow> memory (pool s') h = memory (pool s) h"
    "fb = (quantity (memory (pool s') b) = 0)" "fa = (quantity (memory (pool s') a) = 0)"
    "b \<noteq> a \<Longrightarrow> fb \<or> fa"
    "\<And>i. order_lookup s' i =
       (if (fb \<and> i = order_id (memory (pool s) b)) \<or> (fa \<and> i = order_id (memory (pool s) a))
        then None else order_lookup s i)"
proof -
  from assms obtain pb b bq br pa a aq ar where
    sh: "bids s = (pb, b # bq) # br" "asks s = (pa, a # aq) # ar" "\<not> double_less pb pa"
    and body: "match_body pb b bq br pa a aq ar s = (t, s')"
    by (auto simp: match_step_Some_iff)
  from body show ?thesis
    by (rule match_body_cases) (rule that [OF sh], assumption+)
qed

lemma match_step_live:
  assumes "match_step s = Some (t, s')"
  shows "set (live_handles s') \<subseteq> set (live_handles s)"
    and "length (live_handles s') \<le> length (live_handles s)"
    and "distinct (live_handles s) \<Longrightarrow> length (live_handles s') < length (live_handles s)"
    and "distinct (live_handles s @ free_list (pool s))
           \<Longrightarrow> distinct (live_handles s' @ free_list (pool s'))"
    and "distinct (live_handles s) \<Longrightarrow> distinct (live_handles s')"
proof -
  from assms obtain pb b bq br pa a aq ar fb fa where
    c: "bids s = (pb, b # bq) # br" "asks s = (pa, a # aq) # ar"
    "bids s' = (if fb then (if bq = [] then br else (pb, bq) # br) else (pb, b # bq) # br)"
    "asks s' = (if fa then (if aq = [] then ar else (pa, aq) # ar) else (pa, a # aq) # ar)"
    "free_list (pool s') =
       free_list (pool s) @ (if fb then [b] else []) @ (if fa then [a] else [])"
    "b \<noteq> a \<Longrightarrow> fb \<or> fa"
    by (rule match_step_cases) blast
  have l: "live_handles s = b # bq @ handles_of br @ a # aq @ handles_of ar"
    using c(1,2) by (simp add: live_handles_def)
  have l': "live_handles s' =
      (if fb then bq else b # bq) @ handles_of br @ (if fa then aq else a # aq) @ handles_of ar"
    using c(3,4) by (simp add: live_handles_def)
  show "set (live_handles s') \<subseteq> set (live_handles s)"
    unfolding l l' by auto
  show "length (live_handles s') \<le> length (live_handles s)"
    unfolding l l' by auto
  show "length (live_handles s') < length (live_handles s)" if "distinct (live_handles s)"
  proof -
    from that have "b \<noteq> a" unfolding l by auto
    then have "fb \<or> fa" by (rule c(6))
    then show ?thesis unfolding l l' by auto
  qed
  show "distinct (live_handles s' @ free_list (pool s'))"
    if "distinct (live_handles s @ free_list (pool s))"
    using that unfolding l l' c(5) by auto
  show "distinct (live_handles s')" if "distinct (live_handles s)"
    using that unfolding l l' by auto
qed

lemma match_step_shape:
  assumes "match_step s = Some (t, s')" and "shape_inv s"
  shows "shape_inv s'"
proof -
  from assms(1) obtain pb b bq br pa a aq ar fb fa where
    c: "bids s = (pb, b # bq) # br" "asks s = (pa, a # aq) # ar"
    "bids s' = (if fb then (if bq = [] then br else (pb, bq) # br) else (pb, b # bq) # br)"
    "asks s' = (if fa then (if aq = [] then ar else (pa, aq) # ar) else (pa, a # aq) # ar)"
    by (rule match_step_cases) blast
  show ?thesis
    using assms(2) unfolding shape_inv_def c by auto
qed

lemma match_step_located:
  assumes "match_step s = Some (t, s')"
    and "located True (memory (pool s)) (bids s)" and "located False (memory (pool s)) (asks s)"
  shows "located True (memory (pool s')) (bids s') \<and> located False (memory (pool s')) (asks s')"
proof -
  from assms(1) obtain pb b bq br pa a aq ar fb fa where
    c: "bids s = (pb, b # bq) # br" "asks s = (pa, a # aq) # ar"
    "bids s' = (if fb then (if bq = [] then br else (pb, bq) # br) else (pb, b # bq) # br)"
    "asks s' = (if fa then (if aq = [] then ar else (pa, aq) # ar) else (pa, a # aq) # ar)"
    and m: "\<And>h. order_id (memory (pool s') h) = order_id (memory (pool s) h) \<and>
          is_buy (memory (pool s') h) = is_buy (memory (pool s) h) \<and>
          price (memory (pool s') h) = price (memory (pool s) h) \<and>
          timestamp_ns (memory (pool s') h) = timestamp_ns (memory (pool s) h)"
    by (rule match_step_cases) blast
  have "located buy (memory (pool s')) sb = located buy (memory (pool s)) sb" for buy sb
    by (rule located_cong) (simp add: m)
  then show ?thesis
    using assms(2-) unfolding c by auto
qed

lemma match_step_lookup:
  assumes "match_step s = Some (t, s')"
    and "distinct (live_handles s)" and "lookup_sound s"
  shows "lookup_sound s'"
proof -
  from assms(1) obtain pb b bq br pa a aq ar fb fa where
    c: "bids s = (pb, b # bq) # br" "asks s = (pa, a # aq) # ar"
    "bids s' = (if fb then (if bq = [] then br else (pb, bq) # br) else (pb, b # bq) # br)"
    "asks s' = (if fa then (if aq = [] then ar else (pa, aq) # ar) else (pa, a # aq) # ar)"
    and m: "\<And>h. order_id (memory (pool s') h) = order_id (memory (pool s) h) \<and>
          is_buy (memory (pool s') h) = is_buy (memory (pool s) h) \<and>
          price (memory (pool s') h) = price (memory (pool s) h) \<and>
          timestamp_ns (memory (pool s') h) = timestamp_ns (memory (pool s) h)"
    and lk: "\<And>i. order_lookup s' i =
       (if (fb \<and> i = order_id (memory (pool s) b)) \<or> (fa \<and> i = order_id (memory (pool s) a))
        then None else order_lookup s i)"
    by (rule match_step_cases) blast
  have l: "live_handles s = b # bq @ handles_of br @ a # aq @ handles_of ar"
    using c(1,2) by (simp add: live_handles_def)
  have l': "live_handles s' =
      (if fb then bq else b # bq) @ handles_of br @ (if fa then aq else a # aq) @ handles_of ar"
    using c(3,4) by (simp add: live_handles_def)
  show ?thesis
    unfolding lookup_sound_def
  proof (intro allI impI)
    fix i h
    assume "order_lookup s' i = Some h"
    then have keep: "\<not> (fb \<and> i = order_id (memory (pool s) b))"
        "\<not> (fa \<and> i = order_id (memory (pool s) a))"
      and old: "order_lookup s i = Some h"
      by (auto simp: lk split: if_splits)
    from assms(3) old have h: "h \<in> set (live_handles s)" "order_id (memory (pool s) h) = i"
      by (auto simp: lookup_sound_def)
    from keep h(2) have "fb \<Longrightarrow> h \<noteq> b" "fa \<Longrightarrow> h \<noteq> a" by auto
    with h(1) have "h \<in> set (live_handles s')"
      unfolding l l' by auto
    then show "h \<in> set (live_handles s') \<and> order_id (memory (pool s') h) = i"
      using h(2) by (simp add: m)
  qed
qed

lemma match_step_inv:
  assumes "match_step s = Some (t, s')" and "book_inv s"
  shows "book_inv s'"
proof -
  from assms(2) have d: "distinct (live_handles s)" by (simp add: book_inv_def)
  show ?thesis
    using assms(2) match_step_shape [OF assms(1)] match_step_located [OF assms(1)]
      match_step_lookup [OF assms(1) d] match_step_live(4) [OF assms(1)]
    by (simp add: book_inv_def)
qed

lemma match_step_positive:
  assumes "match_step s = Some (t, s')"
    and "distinct (live_handles s)" and "all_positive s"
  shows "all_positive s'"
proof -
  from assms(1) obtain pb b bq br pa a aq ar fb fa where
    c: "bids s = (pb, b # bq) # br" "asks s = (pa, a # aq) # ar"
    "bids s' = (if fb then (if bq = [] then br else (pb, bq) # br) else (pb, b # bq) # br)"
    "asks s' = (if fa then (if aq = [] then ar else (pa, aq) # ar) else (pa, a # aq) # ar)"
    and m: "\<And>h. h \<noteq> b \<Longrightarrow> h \<noteq> a \<Longrightarrow> memory (pool s') h = memory (pool s) h"
    and f: "fb = (quantity (memory (pool s') b) = 0)" "fa = (quantity (memory (pool s') a) = 0)"
    by (rule match_step_cases) blast
  have l: "live_handles s = b # bq @ handles_of br @ a # aq @ handles_of ar"
    using c(1,2) by (simp add: live_handles_def)
  have l': "live_handles s' =
      (if fb then bq else b # bq) @ handles_of br @ (if fa then aq else a # aq) @ handles_of ar"
    using c(3,4) by (simp add: live_handles_def)
  show ?thesis
    unfolding all_positive_def
  proof
    fix h
    assume h: "h \<in> set (live_handles s')"
    show "0 < quantity (memory (pool s') h)"
    proof (cases "h = b \<or> h = a")
      case True
      from assms(2) h True have "(h = b \<and> \<not> fb) \<or> (h = a \<and> \<not> fa)"
        unfolding l l' by (auto split: if_splits)
      then show ?thesis
        using f by (auto simp: word_greater_zero_iff)
    next
      case False
      with h match_step_live(1) [OF assms(1)] assms(3) show ?thesis
        by (auto simp: m all_positive_def)
    qed
  qed
qed

lemma match_step_None_uncrossed:
  assumes "match_step s = None" and "shape_inv s"
  shows "uncrossed s"
proof (cases "bids s")
  case Nil
  then show ?thesis by (simp add: uncrossed_def)
next
  case bs: (Cons lb br)
  show ?thesis
  proof (cases "asks s")
    case Nil
    then show ?thesis by (simp add: uncrossed_def)
  next
    case as: (Cons la ar)
    obtain pb bo where lb: "lb = (pb, bo)" by (cases lb)
    obtain pa ao where la: "la = (pa, ao)" by (cases la)
    from assms(2) bs as lb la have "bo \<noteq> []" "ao \<noteq> []"
      by (auto simp: shape_inv_def)
    with assms(1) bs as lb la have lt: "double_less pb pa"
      by (auto simp: match_step_def split: list.splits if_splits)
    have b: "double_less (fst x) pa" if "x \<in> set (bids s)" for x
    proof (cases "x = lb")
      case True
      with lt lb show ?thesis by simp
    next
      case False
      with that assms(2) bs lb have "double_less (fst x) pb"
        by (auto simp: shape_inv_def greater_cmp_def)
      then show ?thesis using lt by (rule double_less_trans)
    qed
    have a: "double_less pa (fst y) \<or> fst y = pa" if "y \<in> set (asks s)" for y
      using that assms(2) as la by (auto simp: shape_inv_def less_cmp_def)
    show ?thesis
      unfolding uncrossed_def
    proof (intro ballI)
      fix x y
      assume "x \<in> set (bids s)" "y \<in> set (asks s)"
      with a b have "double_less (fst x) pa" "double_less pa (fst y) \<or> fst y = pa"
        by blast+
      then show "double_less (fst x) (fst y)"
        by (auto intro: double_less_trans)
    qed
  qed
qed

lemma uncrossed_match_step_None: "uncrossed s \<Longrightarrow> match_step s = None"
  by (auto simp: uncrossed_def match_step_def split: list.splits)

section \<open>Facts about the matching loop\<close>

lemma try_match_stop: "match_step s = None \<Longrightarrow> try_match s = Some ([], s)"
  by (subst try_match.simps) simp

lemma try_match_go:
  "match_step s = Some (t, s1) \<Longrightarrow>
     try_match s = Option.bind (try_match s1) (\<lambda>(ts, s2). Some (t # ts, s2))"
  by (subst try_match.simps) simp

lemma try_match_Nil: "try_match s = Some ([], s') \<Longrightarrow> match_step s = None \<and> s' = s"
  by (cases "match_step s") (auto simp: try_match_stop try_match_go split: bind_splits)

lemma try_match_Cons:
  "try_match s = Some (t # ts, s') \<Longrightarrow>
     \<exists>s1. match_step s = Some (t, s1) \<and> try_match s1 = Some (ts, s')"
  by (cases "match_step s") (auto simp: try_match_stop try_match_go split: bind_splits)

lemma try_match_invariant:
  assumes "try_match s = Some (ts, s')" and "I s"
    and step: "\<And>s t s1. I s \<Longrightarrow> match_step s = Some (t, s1) \<Longrightarrow> I s1"
  shows "I s' \<and> match_step s' = None"
  using assms(1,2)
proof (induction ts arbitrary: s)
  case Nil
  then show ?case by (auto dest: try_match_Nil)
next
  case (Cons t ts)
  from Cons.prems(1) obtain s1 where
    s1: "match_step s = Some (t, s1)" "try_match s1 = Some (ts, s')"
    by (auto dest: try_match_Cons)
  from Cons.prems(2) s1(1) have "I s1" by (rule step)
  with s1(2) show ?case by (rule Cons.IH)
qed

lemma try_match_terminates:
  assumes "distinct (live_handles s)"
  shows "\<exists>ts s'. try_match s = Some (ts, s') \<and> length ts \<le> length (live_handles s)"
  using assms
proof (induction "length (live_handles s)" arbitrary: s rule: less_induct)
  case less
  show ?case
  proof (cases "match_step s")
    case None
    then show ?thesis by (simp add: try_match_stop)
  next
    case (Some r)
    obtain t s1 where r: "r = (t, s1)" by (cases r)
    have step: "match_step s = Some (t, s1)" using Some r by simp
    have lt: "length (live_handles s1) < length (live_handles s)"
      using step less.prems by (rule match_step_live(3))
    have d: "distinct (live_handles s1)"
      using step less.prems by (rule match_step_live(5))
    from less.hyps [OF lt d] obtain ts s' where
      "try_match s1 = Some (ts, s')" "length ts \<le> length (live_handles s1)"
      by blast
    with lt show ?thesis
      by (simp add: try_match_go [OF step])
  qed
qed

lemma try_match_shape:
  assumes "try_match s = Some (ts, s')" and "shape_inv s"
  shows "shape_inv s' \<and> uncrossed s'"
proof -
  have "shape_inv s' \<and> match_step s' = None"
    using assms
  proof (rule try_match_invariant)
    show "shape_inv s1" if "shape_inv s0" "match_step s0 = Some (t, s1)" for s0 t s1
      using that(2,1) by (rule match_step_shape)
  qed
  then show ?thesis
    by (auto intro: match_step_None_uncrossed)
qed

lemma try_match_inv:
  assumes "try_match s = Some (ts, s')" and "book_inv s"
  shows "book_inv s'"
proof -
  have "book_inv s' \<and> match_step s' = None"
    using assms
  proof (rule try_match_invariant)
    show "book_inv s1" if "book_inv s0" "match_step s0 = Some (t, s1)" for s0 t s1
      using that(2,1) by (rule match_step_inv)
  qed
  then show ?thesis by simp
qed

lemma try_match_positive:
  assumes "try_match s = Some (ts, s')" and "book_inv s" and "all_positive s"
  shows "all_positive s'"
proof -
  have "(book_inv s' \<and> all_positive s') \<and> match_step s' = None"
    using assms(1)
  proof (rule try_match_invariant)
    show "book_inv s \<and> all_positive s" using assms(2,3) by simp
    show "book_inv s1 \<and> all_positive s1"
      if "book_inv s0 \<and> all_positive s0" "match_step s0 = Some (t, s1)" for s0 t s1
    proof
      show "book_inv s1" using that by (auto intro: match_step_inv)
      from that(1) have "distinct (live_handles s0)" by (simp add: book_inv_def)
      with that show "all_positive s1" by (auto intro: match_step_positive)
    qed
  qed
  then show ?thesis by simp
qed

lemma try_match_uncrossed: "uncrossed s \<Longrightarrow> try_match s = Some ([], s)"
  by (simp add: try_match_stop uncrossed_match_step_None)

section \<open>Facts about the public operations\<close>

lemma insert_order_sel [simp]:
  "memory (pool (insert_order h p' new s)) = (memory p')(h := new)"
  "free_list (pool (insert_order h p' new s)) = free_list p'"
  "capacity (pool (insert_order h p' new s)) = capacity p'"
  "order_lookup (insert_order h p' new s) = (order_lookup s)(order_id new \<mapsto> h)"
  "bids (insert_order h p' new s) =
     (if is_buy new then map_push_back greater_cmp (price new) h (bids s) else bids s)"
  "asks (insert_order h p' new s) =
     (if is_buy new then asks s else map_push_back less_cmp (price new) h (asks s))"
  by (simp_all add: insert_order_def Let_def)

lemma live_handles_insert:
  "set (live_handles (insert_order h p' new s)) = insert h (set (live_handles s))"
  "distinct (live_handles (insert_order h p' new s)) =
     (distinct (live_handles s) \<and> h \<notin> set (live_handles s))"
  by (auto simp: live_handles_def push_handles_set push_handles_distinct)

lemma add_order_cases:
  assumes "add_order order now s = Some (r, s')"
  obtains (full) "free_list (pool s) = []" "r = Inl Memory_pool_exhausted" "s' = s"
  | (added) ts where "free_list (pool s) \<noteq> []" "r = Inr ts"
      "try_match (insert_order (last (free_list (pool s)))
                    ((pool s)\<lparr>free_list := butlast (free_list (pool s))\<rparr>)
                    (if timestamp_ns order = 0 then order\<lparr>timestamp_ns := now\<rparr> else order) s)
         = Some (ts, s')"
  using assms
  by (auto simp: add_order_def allocate_def Let_def split: if_splits option.splits)

lemma remove_order_sel [simp]:
  "pool (remove_order_from_book h s) = pool s"
  "order_lookup (remove_order_from_book h s) = order_lookup s"
  "bids (remove_order_from_book h s) =
     (if is_buy (memory (pool s) h)
      then map_remove greater_cmp (price (memory (pool s) h)) h (bids s) else bids s)"
  "asks (remove_order_from_book h s) =
     (if is_buy (memory (pool s) h)
      then asks s else map_remove less_cmp (price (memory (pool s) h)) h (asks s))"
  by (simp_all add: remove_order_from_book_def)

lemma cancel_order_sel:
  "order_lookup s oid = None \<Longrightarrow> cancel_order oid s = (False, s)"
  "order_lookup s oid = Some h \<Longrightarrow> fst (cancel_order oid s) = True"
  "order_lookup s oid = Some h \<Longrightarrow>
     memory (pool (snd (cancel_order oid s))) = memory (pool s)"
  "order_lookup s oid = Some h \<Longrightarrow>
     capacity (pool (snd (cancel_order oid s))) = capacity (pool s)"
  "order_lookup s oid = Some h \<Longrightarrow>
     free_list (pool (snd (cancel_order oid s))) = free_list (pool s) @ [h]"
  "order_lookup s oid = Some h \<Longrightarrow>
     order_lookup (snd (cancel_order oid s)) = (order_lookup s)(oid := None)"
  "order_lookup s oid = Some h \<Longrightarrow>
     bids (snd (cancel_order oid s)) = bids (remove_order_from_book h s)"
  "order_lookup s oid = Some h \<Longrightarrow>
     asks (snd (cancel_order oid s)) = asks (remove_order_from_book h s)"
  by (simp_all add: cancel_order_def Let_def deallocate_def)

lemma amend_order_cases:
  assumes "amend_order oid new_price new_quantity now now' s = Some (r, s')"
  obtains (absent) "order_lookup s oid = None" "r = Inr (False, [])" "s' = s"
  | (in_place) h where "order_lookup s oid = Some h"
      "\<not> double_ne (price (memory (pool s) h)) new_price"
      "r = Inr (True, [])" "s' = set_quantity h new_quantity s"
  | (reinsert) h r' where "order_lookup s oid = Some h"
      "double_ne (price (memory (pool s) h)) new_price"
      "add_order ((memory (pool s) h)
                    \<lparr>price := new_price, quantity := new_quantity, timestamp_ns := now\<rparr>)
         now' (snd (cancel_order oid s)) = Some (r', s')"
  using assms
  by (auto simp: amend_order_def Let_def split: option.splits if_splits sum.splits)

subsection \<open>What every call keeps, whatever it is passed\<close>

lemma insert_order_shape:
  assumes "shape_inv s"
  shows "shape_inv (insert_order h p' new s)"
proof -
  from assms have s0: "sorted_wrt greater_cmp (map fst (bids s))"
      "sorted_wrt less_cmp (map fst (asks s))"
      "\<forall>l \<in> set (bids s). snd l \<noteq> []" "\<forall>l \<in> set (asks s). snd l \<noteq> []"
    by (simp_all add: shape_inv_def)
  have sb: "sorted_wrt greater_cmp (map fst (bids (insert_order h p' new s)))"
    using s0(1) push_sorted [of greater_cmp "bids s" "price new" h] by simp
  have sa: "sorted_wrt less_cmp (map fst (asks (insert_order h p' new s)))"
    using s0(2) push_sorted [of less_cmp "asks s" "price new" h] by simp
  have nb: "\<forall>l \<in> set (bids (insert_order h p' new s)). snd l \<noteq> []"
    using s0(3) push_nonempty [of "bids s" greater_cmp "price new" h] by simp
  have na: "\<forall>l \<in> set (asks (insert_order h p' new s)). snd l \<noteq> []"
    using s0(4) push_nonempty [of "asks s" less_cmp "price new" h] by simp
  show ?thesis
    unfolding shape_inv_def by (intro conjI sb sa nb na)
qed

lemma add_order_shape:
  assumes "add_order order now s = Some (r, s')" and "shape_inv s" and "uncrossed s"
  shows "shape_inv s' \<and> uncrossed s'"
  using assms(1)
proof (cases rule: add_order_cases)
  case full
  with assms show ?thesis by simp
next
  case (added ts)
  from added(3) insert_order_shape [OF assms(2)] show ?thesis
    by (rule try_match_shape)
qed

lemma remove_order_shape:
  assumes "shape_inv s"
  shows "shape_inv (remove_order_from_book h s)"
proof -
  from assms have s0: "sorted_wrt greater_cmp (map fst (bids s))"
      "sorted_wrt less_cmp (map fst (asks s))"
      "\<forall>l \<in> set (bids s). snd l \<noteq> []" "\<forall>l \<in> set (asks s). snd l \<noteq> []"
    by (simp_all add: shape_inv_def)
  have sb: "sorted_wrt greater_cmp (map fst (bids (remove_order_from_book h s)))"
    using s0(1) by (simp add: remove_sorted)
  have sa: "sorted_wrt less_cmp (map fst (asks (remove_order_from_book h s)))"
    using s0(2) by (simp add: remove_sorted)
  have nb: "\<forall>l \<in> set (bids (remove_order_from_book h s)). snd l \<noteq> []"
    using s0(3) remove_nonempty [of "bids s" greater_cmp "price (memory (pool s) h)" h] by simp
  have na: "\<forall>l \<in> set (asks (remove_order_from_book h s)). snd l \<noteq> []"
    using s0(4) remove_nonempty [of "asks s" less_cmp "price (memory (pool s) h)" h] by simp
  show ?thesis
    unfolding shape_inv_def by (intro conjI sb sa nb na)
qed

lemma remove_order_uncrossed:
  assumes "uncrossed s"
  shows "uncrossed (remove_order_from_book h s)"
  unfolding uncrossed_def
proof (intro ballI)
  fix b a
  assume b: "b \<in> set (bids (remove_order_from_book h s))"
    and a: "a \<in> set (asks (remove_order_from_book h s))"
  from b obtain b' where b': "b' \<in> set (bids s)" "fst b = fst b'"
    by (cases "is_buy (memory (pool s) h)") (auto dest: remove_levels_subset)
  from a obtain a' where a': "a' \<in> set (asks s)" "fst a = fst a'"
    by (cases "is_buy (memory (pool s) h)") (auto dest: remove_levels_subset)
  from assms b'(1) a'(1) have "double_less (fst b') (fst a')" by (simp add: uncrossed_def)
  then show "double_less (fst b) (fst a)" by (simp add: b'(2) a'(2))
qed

lemma cancel_order_shape:
  assumes "shape_inv s" and "uncrossed s"
  shows "shape_inv (snd (cancel_order oid s)) \<and> uncrossed (snd (cancel_order oid s))"
proof (cases "order_lookup s oid")
  case None
  with assms show ?thesis by (simp add: cancel_order_sel)
next
  case (Some h)
  note sel = cancel_order_sel(3-8) [OF Some]
  have "shape_inv (snd (cancel_order oid s))"
    using remove_order_shape [OF assms(1), of h] by (simp add: shape_inv_def sel)
  moreover have "uncrossed (snd (cancel_order oid s))"
    using remove_order_uncrossed [OF assms(2), of h] by (simp add: uncrossed_def sel)
  ultimately show ?thesis ..
qed

lemma amend_order_shape:
  assumes "amend_order oid new_price new_quantity now now' s = Some (r, s')"
    and "shape_inv s" and "uncrossed s"
  shows "shape_inv s' \<and> uncrossed s'"
  using assms(1)
proof (cases rule: amend_order_cases)
  case absent
  with assms show ?thesis by simp
next
  case (in_place h)
  with assms show ?thesis by (simp add: shape_inv_def uncrossed_def)
next
  case (reinsert h r')
  from cancel_order_shape [OF assms(2,3), of oid]
  have "shape_inv (snd (cancel_order oid s))" "uncrossed (snd (cancel_order oid s))"
    by simp_all
  with reinsert(3) show ?thesis by (rule add_order_shape)
qed

lemma init_shape: "shape_inv (OrderBook_init n raw) \<and> uncrossed (OrderBook_init n raw)"
  by (simp add: shape_inv_def uncrossed_def OrderBook_init_def)

lemma call_book_shape:
  assumes "call_book c s = Some s'" and "shape_inv s \<and> uncrossed s"
  shows "shape_inv s' \<and> uncrossed s'"
proof (cases c)
  case (Add_order order now)
  with assms(1) obtain r where "add_order order now s = Some (r, s')" by auto
  moreover from assms(2) have "shape_inv s" "uncrossed s" by simp_all
  ultimately show ?thesis by (rule add_order_shape)
next
  case (Cancel_order oid)
  with assms cancel_order_shape [of s oid] show ?thesis by auto
next
  case (Amend_order oid p q now now')
  with assms(1) obtain r where "amend_order oid p q now now' s = Some (r, s')" by auto
  moreover from assms(2) have "shape_inv s" "uncrossed s" by simp_all
  ultimately show ?thesis by (rule amend_order_shape)
next
  case (Get_snapshot d bo ao)
  with assms show ?thesis by simp
qed

lemma run_shape:
  assumes "run cs s = Some s'" and "shape_inv s \<and> uncrossed s"
  shows "shape_inv s' \<and> uncrossed s'"
  using assms
proof (induction cs arbitrary: s)
  case Nil
  then show ?case by simp
next
  case (Cons c cs)
  from Cons.prems(1) obtain s1 where s1: "call_book c s = Some s1" "run cs s1 = Some s'"
    by (auto split: option.splits)
  from s1(1) Cons.prems(2) have "shape_inv s1 \<and> uncrossed s1" by (rule call_book_shape)
  with s1(2) show ?case by (rule Cons.IH)
qed

lemma reachable_shape:
  "run cs (OrderBook_init n raw) = Some s \<Longrightarrow> shape_inv s \<and> uncrossed s"
  by (rule run_shape [OF _ init_shape])

subsection \<open>What the calls keep when no NaN price is passed\<close>

lemma insert_order_inv:
  assumes "book_inv s" and "free_list (pool s) \<noteq> []" and "price new \<noteq> NaN"
  shows "book_inv (insert_order (last (free_list (pool s)))
                     ((pool s)\<lparr>free_list := butlast (free_list (pool s))\<rparr>) new s)"
    (is "book_inv ?s'")
proof -
  let ?h = "last (free_list (pool s))"
  have mem': "memory (pool ?s') = (memory (pool s))(?h := new)"
    by simp
  from assms(2) have fl: "free_list (pool s) = butlast (free_list (pool s)) @ [?h]"
    by simp
  from assms(1) have d: "distinct (live_handles s @ free_list (pool s))"
    and sh: "shape_inv s"
    by (simp_all add: book_inv_def)
  from sh have ne: "\<forall>l \<in> set (bids s). snd l \<noteq> []" "\<forall>l \<in> set (asks s). snd l \<noteq> []"
    by (simp_all add: shape_inv_def)
  have fresh: "?h \<notin> set (live_handles s)"
    using d assms(2) by (auto simp: last_in_set)
  have d': "distinct (live_handles ?s' @ free_list (pool ?s'))"
  proof -
    from d fl have "distinct (live_handles s @ butlast (free_list (pool s)) @ [?h])" by simp
    then show ?thesis
      by (auto simp: live_handles_insert)
  qed
  have same: "is_buy (memory (pool ?s') x) = is_buy (memory (pool s) x) \<and>
              price (memory (pool ?s') x) = price (memory (pool s) x)"
    if "x \<in> set (live_handles s)" for x
    using that fresh by (auto simp: mem')
  have lb: "located True (memory (pool ?s')) (bids s)"
    using assms(1) same by (subst located_cong) (auto simp: book_inv_def live_handles_def)
  have la: "located False (memory (pool ?s')) (asks s)"
    using assms(1) same by (subst located_cong) (auto simp: book_inv_def live_handles_def)
  have lb': "located True (memory (pool ?s')) (bids ?s')"
  proof (cases "is_buy new")
    case True
    have "located True (memory (pool ?s')) (map_push_back greater_cmp (price new) ?h (bids s))"
      using lb ne(1) True assms(3) by (intro push_located) (simp_all add: mem')
    with True show ?thesis by simp
  next
    case False
    with lb show ?thesis by simp
  qed
  have la': "located False (memory (pool ?s')) (asks ?s')"
  proof (cases "is_buy new")
    case True
    with la show ?thesis by simp
  next
    case False
    have "located False (memory (pool ?s')) (map_push_back less_cmp (price new) ?h (asks s))"
      using la ne(2) False assms(3) by (intro push_located) (simp_all add: mem')
    with False show ?thesis by simp
  qed
  have lk: "lookup_sound ?s'"
    unfolding lookup_sound_def
  proof (intro allI impI)
    fix i x
    assume a: "order_lookup ?s' i = Some x"
    show "x \<in> set (live_handles ?s') \<and> order_id (memory (pool ?s') x) = i"
    proof (cases "i = order_id new")
      case True
      with a show ?thesis by (simp add: live_handles_insert)
    next
      case False
      with a have "order_lookup s i = Some x" by simp
      with assms(1) have "x \<in> set (live_handles s)" "order_id (memory (pool s) x) = i"
        by (auto simp: book_inv_def lookup_sound_def)
      with fresh show ?thesis by (auto simp: live_handles_insert)
    qed
  qed
  have sh': "shape_inv ?s'"
    using sh by (rule insert_order_shape)
  show ?thesis
    unfolding book_inv_def by (intro conjI sh' d' lb' la' lk)
qed

lemma insert_order_distinct:
  assumes "book_inv s" and "free_list (pool s) \<noteq> []"
  shows "distinct (live_handles (insert_order (last (free_list (pool s))) p' new s))"
proof -
  from assms(1) have d: "distinct (live_handles s @ free_list (pool s))"
    by (simp add: book_inv_def)
  then have "last (free_list (pool s)) \<notin> set (live_handles s)"
    using assms(2) by (auto simp: last_in_set)
  with d show ?thesis by (simp add: live_handles_insert)
qed

lemma add_order_inv:
  assumes "add_order order now s = Some (r, s')" and "book_inv s" and "price order \<noteq> NaN"
  shows "book_inv s'"
  using assms(1)
proof (cases rule: add_order_cases)
  case full
  with assms show ?thesis by simp
next
  case (added ts)
  let ?new = "if timestamp_ns order = 0 then order\<lparr>timestamp_ns := now\<rparr> else order"
  from assms(3) have "price ?new \<noteq> NaN" by simp
  from added(3) insert_order_inv [OF assms(2) added(1) this] show ?thesis
    by (rule try_match_inv)
qed

lemma add_order_returns:
  assumes "book_inv s"
  shows "\<exists>r s'. add_order order now s = Some (r, s')"
proof (cases "free_list (pool s) = []")
  case True
  then show ?thesis by (simp add: add_order_def allocate_def)
next
  case False
  let ?s3 = "insert_order (last (free_list (pool s)))
                    ((pool s)\<lparr>free_list := butlast (free_list (pool s))\<rparr>)
                    (if timestamp_ns order = 0 then order\<lparr>timestamp_ns := now\<rparr> else order) s"
  have "distinct (live_handles ?s3)" using assms False by (rule insert_order_distinct)
  then obtain ts s' where "try_match ?s3 = Some (ts, s')"
    using try_match_terminates by blast
  then show ?thesis
    using False by (simp add: add_order_def allocate_def Let_def)
qed

lemma live_handles_remove:
  assumes "book_inv s" and "h \<in> set (live_handles s)"
  shows "set (live_handles (remove_order_from_book h s)) = set (live_handles s) - {h}"
    and "distinct (live_handles (remove_order_from_book h s))"
proof -
  let ?mem = "memory (pool s)"
  from assms(1) have srt: "sorted_wrt greater_cmp (map fst (bids s))"
      "sorted_wrt less_cmp (map fst (asks s))"
    and loc: "located True ?mem (bids s)" "located False ?mem (asks s)"
    and d: "distinct (handles_of (bids s))" "distinct (handles_of (asks s))"
      "set (handles_of (bids s)) \<inter> set (handles_of (asks s)) = {}"
    by (auto simp: book_inv_def shape_inv_def live_handles_def)
  have side: "h \<in> set (handles_of (bids s)) \<longleftrightarrow> is_buy (?mem h)"
    using assms(2) loc d(3)
    by (auto simp: live_handles_def located_def set_handles_of)
  show "set (live_handles (remove_order_from_book h s)) = set (live_handles s) - {h}"
  proof (cases "is_buy (?mem h)")
    case True
    have "h \<notin> set (handles_of (map_remove greater_cmp (price (?mem h)) h (bids s)))"
      using srt(1) loc(1) d(1) by (intro remove_absent) auto
    moreover have "h \<notin> set (handles_of (asks s))"
      using True side d(3) by auto
    ultimately show ?thesis
      using True remove_handles_subset [of greater_cmp "price (?mem h)" h "bids s"]
        remove_handles_keep [of _ "bids s" h greater_cmp "price (?mem h)"]
      by (auto simp: live_handles_def)
  next
    case False
    have "h \<notin> set (handles_of (map_remove less_cmp (price (?mem h)) h (asks s)))"
      using srt(2) loc(2) d(2) by (intro remove_absent) auto
    moreover have "h \<notin> set (handles_of (bids s))"
      using False side by auto
    ultimately show ?thesis
      using False remove_handles_subset [of less_cmp "price (?mem h)" h "asks s"]
        remove_handles_keep [of _ "asks s" h less_cmp "price (?mem h)"]
      by (auto simp: live_handles_def)
  qed
  show "distinct (live_handles (remove_order_from_book h s))"
    using d remove_distinct [of "bids s"] remove_distinct [of "asks s"]
      remove_handles_subset [of greater_cmp "price (?mem h)" h "bids s"]
      remove_handles_subset [of less_cmp "price (?mem h)" h "asks s"]
    by (auto simp: live_handles_def)
qed

lemma cancel_order_inv:
  assumes "book_inv s"
  shows "book_inv (snd (cancel_order oid s))"
proof (cases "order_lookup s oid")
  case None
  with assms show ?thesis by (simp add: cancel_order_sel)
next
  case (Some h)
  let ?s1 = "remove_order_from_book h s"
  let ?s' = "snd (cancel_order oid s)"
  from assms Some have h: "h \<in> set (live_handles s)" "order_id (memory (pool s) h) = oid"
    by (auto simp: book_inv_def lookup_sound_def)
  note sel = cancel_order_sel(3-8) [OF Some]
  have live: "live_handles ?s' = live_handles ?s1"
    by (simp add: live_handles_def sel)
  have set1: "set (live_handles ?s1) = set (live_handles s) - {h}"
    and d1: "distinct (live_handles ?s1)"
    using assms h(1) by (rule live_handles_remove)+
  from assms have d: "distinct (live_handles s @ free_list (pool s))"
    and sh: "shape_inv s"
    and loc: "located True (memory (pool s)) (bids s)" "located False (memory (pool s)) (asks s)"
    by (simp_all add: book_inv_def)
  have d': "distinct (live_handles ?s' @ free_list (pool ?s'))"
    using d d1 set1 h(1) by (auto simp: live sel)
  have lk: "lookup_sound ?s'"
    unfolding lookup_sound_def
  proof (intro allI impI)
    fix i x
    assume "order_lookup ?s' i = Some x"
    then have "i \<noteq> oid" "order_lookup s i = Some x"
      by (auto simp: sel split: if_splits)
    with assms have x: "x \<in> set (live_handles s)" "order_id (memory (pool s) x) = i"
      by (auto simp: book_inv_def lookup_sound_def)
    with \<open>i \<noteq> oid\<close> h(2) have "x \<noteq> h" by auto
    with x show "x \<in> set (live_handles ?s') \<and> order_id (memory (pool ?s') x) = i"
      by (simp add: live set1 sel)
  qed
  have sh': "shape_inv ?s'"
    using remove_order_shape [OF sh, of h] by (simp add: shape_inv_def sel)
  have lb: "located True (memory (pool ?s')) (bids ?s')"
    using loc(1) by (simp add: sel remove_located)
  have la: "located False (memory (pool ?s')) (asks ?s')"
    using loc(2) by (simp add: sel remove_located)
  show ?thesis
    unfolding book_inv_def by (intro conjI sh' d' lb la lk)
qed

lemma set_quantity_inv:
  assumes "book_inv s"
  shows "book_inv (set_quantity h q s)"
proof -
  have "located buy (memory (pool (set_quantity h q s))) sb = located buy (memory (pool s)) sb"
    for buy sb
    by (rule located_cong) simp
  moreover have "live_handles (set_quantity h q s) = live_handles s"
    by (simp add: live_handles_def)
  ultimately show ?thesis
    using assms by (simp add: book_inv_def shape_inv_def lookup_sound_def)
qed

lemma amend_order_inv:
  assumes "amend_order oid new_price new_quantity now now' s = Some (r, s')"
    and "book_inv s" and "new_price \<noteq> NaN"
  shows "book_inv s'"
  using assms(1)
proof (cases rule: amend_order_cases)
  case absent
  with assms show ?thesis by simp
next
  case (in_place h)
  with assms show ?thesis by (simp add: set_quantity_inv)
next
  case (reinsert h r')
  have "book_inv (snd (cancel_order oid s))"
    using assms(2) by (rule cancel_order_inv)
  moreover from assms(3) have "price ((memory (pool s) h)
      \<lparr>price := new_price, quantity := new_quantity, timestamp_ns := now\<rparr>) \<noteq> NaN"
    by simp
  ultimately show ?thesis by (rule add_order_inv [OF reinsert(3)])
qed

lemma init_inv: "book_inv (OrderBook_init n raw)"
  by (simp add: book_inv_def shape_inv_def OrderBook_init_def MemoryPool_init_def
      live_handles_def lookup_sound_def)

lemma call_book_inv:
  assumes "call_book c s = Some s'" and "book_inv s" and "number_call c"
  shows "book_inv s'"
proof (cases c)
  case (Add_order order now)
  with assms(1) obtain r where "add_order order now s = Some (r, s')" by auto
  moreover from assms(3) Add_order have "price order \<noteq> NaN" by simp
  ultimately show ?thesis using assms(2) by (blast intro: add_order_inv)
next
  case (Cancel_order oid)
  with assms cancel_order_inv [of s oid] show ?thesis by auto
next
  case (Amend_order oid p q now now')
  with assms(1) obtain r where "amend_order oid p q now now' s = Some (r, s')" by auto
  moreover from assms(3) Amend_order have "p \<noteq> NaN" by simp
  ultimately show ?thesis using assms(2) by (blast intro: amend_order_inv)
next
  case (Get_snapshot d bo ao)
  with assms show ?thesis by simp
qed

lemma run_inv:
  assumes "run cs s = Some s'" and "book_inv s" and "\<forall>c \<in> set cs. number_call c"
  shows "book_inv s'"
  using assms
proof (induction cs arbitrary: s)
  case Nil
  then show ?case by simp
next
  case (Cons c cs)
  from Cons.prems(1) obtain s1 where s1: "call_book c s = Some s1" "run cs s1 = Some s'"
    by (auto split: option.splits)
  from Cons.prems(3) have nc: "number_call c" and ncs: "\<forall>c \<in> set cs. number_call c"
    by simp_all
  from s1(1) Cons.prems(2) nc have "book_inv s1" by (rule call_book_inv)
  with s1(2) show ?case using ncs by (rule Cons.IH)
qed

lemma reachable_inv:
  assumes "run cs (OrderBook_init n raw) = Some s" and "\<forall>c \<in> set cs. number_call c"
  shows "book_inv s"
  using assms(1) init_inv assms(2) by (rule run_inv)

text \<open>
  On such a book every public call returns, and so does every sequence of calls that
  passes no NaN price on a new book.
\<close>

lemma amend_order_returns:
  assumes "book_inv s"
  shows "\<exists>r s'. amend_order oid new_price new_quantity now now' s = Some (r, s')"
proof (cases "order_lookup s oid")
  case None
  then show ?thesis by (simp add: amend_order_def)
next
  case (Some h)
  show ?thesis
  proof (cases "double_ne (price (memory (pool s) h)) new_price")
    case False
    with Some show ?thesis by (simp add: amend_order_def)
  next
    case True
    from cancel_order_inv [OF assms, of oid] have "book_inv (snd (cancel_order oid s))" .
    from add_order_returns [OF this] obtain r s' where
      "add_order ((memory (pool s) h)
                    \<lparr>price := new_price, quantity := new_quantity, timestamp_ns := now\<rparr>)
         now' (snd (cancel_order oid s)) = Some (r, s')"
      by blast
    with Some True show ?thesis
      by (cases r) (simp_all add: amend_order_def Let_def)
  qed
qed

lemma call_book_returns:
  assumes "book_inv s"
  shows "\<exists>s'. call_book c s = Some s'"
proof (cases c)
  case (Add_order order now)
  with add_order_returns [OF assms, of order now] show ?thesis by auto
next
  case (Cancel_order oid)
  then show ?thesis by simp
next
  case (Amend_order oid p q now now')
  with amend_order_returns [OF assms, of oid p q now now'] show ?thesis by auto
next
  case (Get_snapshot d bo ao)
  then show ?thesis by simp
qed

lemma run_returns:
  assumes "book_inv s" and "\<forall>c \<in> set cs. number_call c"
  shows "\<exists>s'. run cs s = Some s'"
  using assms
proof (induction cs arbitrary: s)
  case Nil
  then show ?case by simp
next
  case (Cons c cs)
  from Cons.prems(1) call_book_returns [of s c] obtain s1 where s1: "call_book c s = Some s1"
    by blast
  from Cons.prems(2) have nc: "number_call c" and ncs: "\<forall>c \<in> set cs. number_call c"
    by simp_all
  from s1 Cons.prems(1) nc have "book_inv s1" by (rule call_book_inv)
  from Cons.IH [OF this ncs] s1 show ?case by simp
qed

lemma number_run_returns:
  "\<forall>c \<in> set cs. number_call c \<Longrightarrow> \<exists>s. run cs (OrderBook_init n raw) = Some s"
  by (rule run_returns [OF init_inv])

section \<open>Positive quantities\<close>

lemma insert_order_positive:
  assumes "book_inv s" and "all_positive s" and "free_list (pool s) \<noteq> []"
    and "0 < quantity new"
  shows "all_positive (insert_order (last (free_list (pool s)))
                         ((pool s)\<lparr>free_list := butlast (free_list (pool s))\<rparr>) new s)"
proof -
  from assms(1) have "distinct (live_handles s @ free_list (pool s))"
    by (simp add: book_inv_def)
  with assms(3) have "last (free_list (pool s)) \<notin> set (live_handles s)"
    by (auto simp: last_in_set)
  with assms(2,4) show ?thesis
    by (auto simp: all_positive_def live_handles_insert)
qed

lemma add_order_positive:
  assumes "add_order order now s = Some (r, s')" and "book_inv s" and "all_positive s"
    and "0 < quantity order" and "price order \<noteq> NaN"
  shows "all_positive s'"
  using assms(1)
proof (cases rule: add_order_cases)
  case full
  with assms show ?thesis by simp
next
  case (added ts)
  let ?new = "if timestamp_ns order = 0 then order\<lparr>timestamp_ns := now\<rparr> else order"
  from assms(4,5) have "0 < quantity ?new" and pn: "price ?new \<noteq> NaN" by simp_all
  with assms(2,3) added(1) have "all_positive (insert_order (last (free_list (pool s)))
      ((pool s)\<lparr>free_list := butlast (free_list (pool s))\<rparr>) ?new s)"
    by (intro insert_order_positive)
  with added(3) insert_order_inv [OF assms(2) added(1) pn] show ?thesis
    by (rule try_match_positive)
qed

lemma cancel_order_positive:
  assumes "all_positive s"
  shows "all_positive (snd (cancel_order oid s))"
proof (cases "order_lookup s oid")
  case None
  with assms show ?thesis by (simp add: cancel_order_sel)
next
  case (Some h)
  note sel = cancel_order_sel(3-8) [OF Some]
  have "set (live_handles (snd (cancel_order oid s))) \<subseteq> set (live_handles s)"
    using remove_handles_subset [of greater_cmp "price (memory (pool s) h)" h "bids s"]
      remove_handles_subset [of less_cmp "price (memory (pool s) h)" h "asks s"]
    by (auto simp: live_handles_def sel)
  with assms show ?thesis
    by (auto simp: all_positive_def sel)
qed

lemma amend_order_positive:
  assumes "amend_order oid new_price new_quantity now now' s = Some (r, s')"
    and "book_inv s" and "all_positive s" and "0 < new_quantity" and "new_price \<noteq> NaN"
  shows "all_positive s'"
  using assms(1)
proof (cases rule: amend_order_cases)
  case absent
  with assms show ?thesis by simp
next
  case (in_place h)
  with assms(3,4) show ?thesis
    by (simp add: all_positive_def live_handles_def)
next
  case (reinsert h r')
  have "book_inv (snd (cancel_order oid s))"
    using assms(2) by (rule cancel_order_inv)
  moreover from assms(3) have "all_positive (snd (cancel_order oid s))"
    by (rule cancel_order_positive)
  moreover from assms(4) have "0 < quantity ((memory (pool s) h)
      \<lparr>price := new_price, quantity := new_quantity, timestamp_ns := now\<rparr>)"
    by simp
  moreover from assms(5) have "price ((memory (pool s) h)
      \<lparr>price := new_price, quantity := new_quantity, timestamp_ns := now\<rparr>) \<noteq> NaN"
    by simp
  ultimately show ?thesis
    by (rule add_order_positive [OF reinsert(3)])
qed

lemma call_book_positive:
  assumes "call_book c s = Some s'" and "book_inv s" and "all_positive s"
    and "positive_call c" and "number_call c"
  shows "all_positive s'"
proof (cases c)
  case (Add_order order now)
  with assms(1) obtain r where "add_order order now s = Some (r, s')" by auto
  moreover from assms(4,5) Add_order have "0 < quantity order" "price order \<noteq> NaN"
    by simp_all
  ultimately show ?thesis using assms(2,3) by (auto intro: add_order_positive)
next
  case (Cancel_order oid)
  with assms(1,3) cancel_order_positive [of s oid] show ?thesis by auto
next
  case (Amend_order oid p q now now')
  with assms(1) obtain r where "amend_order oid p q now now' s = Some (r, s')" by auto
  moreover from assms(4,5) Amend_order have "0 < q" "p \<noteq> NaN" by simp_all
  ultimately show ?thesis using assms(2,3) by (auto intro: amend_order_positive)
next
  case (Get_snapshot d bo ao)
  with assms show ?thesis by simp
qed

lemma run_positive:
  assumes "run cs s = Some s'" and "book_inv s" and "all_positive s"
    and "\<forall>c \<in> set cs. positive_call c" and "\<forall>c \<in> set cs. number_call c"
  shows "all_positive s'"
  using assms
proof (induction cs arbitrary: s)
  case Nil
  then show ?case by simp
next
  case (Cons c cs)
  from Cons.prems(1) obtain s1 where s1: "call_book c s = Some s1" "run cs s1 = Some s'"
    by (auto split: option.splits)
  from Cons.prems(4,5) have c: "positive_call c" "number_call c"
    and cs: "\<forall>c \<in> set cs. positive_call c" "\<forall>c \<in> set cs. number_call c"
    by simp_all
  from s1(1) Cons.prems(2) c(2) have inv1: "book_inv s1" by (rule call_book_inv)
  from s1(1) Cons.prems(2,3) c have "all_positive s1" by (rule call_book_positive)
  with s1(2) inv1 show ?case using cs by (rule Cons.IH)
qed

lemma init_positive: "all_positive (OrderBook_init n raw)"
  by (simp add: all_positive_def OrderBook_init_def live_handles_def)

section \<open>Orders that do not cross\<close>

lemma insert_order_uncrossed:
  assumes "uncrossed s" and "\<not> crosses new s"
  shows "uncrossed (insert_order h p' new s)"
  unfolding uncrossed_def
proof (intro ballI)
  fix b a
  assume b: "b \<in> set (bids (insert_order h p' new s))"
    and a: "a \<in> set (asks (insert_order h p' new s))"
  show "double_less (fst b) (fst a)"
  proof (cases "is_buy new")
    case True
    with a have a': "a \<in> set (asks s)" by simp
    from b True have "fst b \<in> fst ` set (map_push_back greater_cmp (price new) h (bids s))"
      by simp
    with push_keys_subset [of greater_cmp "price new" h "bids s"]
    have "fst b = price new \<or> fst b \<in> fst ` set (bids s)"
      by auto
    then show ?thesis
    proof
      assume "fst b = price new"
      with assms(2) True a' show ?thesis by (auto simp: crosses_def)
    next
      assume "fst b \<in> fst ` set (bids s)"
      with assms(1) a' show ?thesis by (force simp: uncrossed_def)
    qed
  next
    case False
    with b have b': "b \<in> set (bids s)" by simp
    from a False have "fst a \<in> fst ` set (map_push_back less_cmp (price new) h (asks s))"
      by simp
    with push_keys_subset [of less_cmp "price new" h "asks s"]
    have "fst a = price new \<or> fst a \<in> fst ` set (asks s)"
      by auto
    then show ?thesis
    proof
      assume "fst a = price new"
      with assms(2) False b' show ?thesis by (auto simp: crosses_def)
    next
      assume "fst a \<in> fst ` set (asks s)"
      with assms(1) b' show ?thesis by (force simp: uncrossed_def)
    qed
  qed
qed

lemma add_order_resting:
  assumes "uncrossed s" and "\<not> crosses order s" and "free_list (pool s) \<noteq> []"
  shows "add_order order now s =
           Some (Inr [], insert_order (last (free_list (pool s)))
                           ((pool s)\<lparr>free_list := butlast (free_list (pool s))\<rparr>)
                           (if timestamp_ns order = 0 then order\<lparr>timestamp_ns := now\<rparr> else order) s)"
proof -
  let ?new = "if timestamp_ns order = 0 then order\<lparr>timestamp_ns := now\<rparr> else order"
  have "crosses ?new s = crosses order s" by (simp add: crosses_def)
  with assms(2) have "\<not> crosses ?new s" by simp
  with assms(1) have "uncrossed (insert_order (last (free_list (pool s)))
      ((pool s)\<lparr>free_list := butlast (free_list (pool s))\<rparr>) ?new s)"
    by (rule insert_order_uncrossed)
  then show ?thesis
    using assms(3) by (simp add: add_order_def allocate_def Let_def try_match_uncrossed)
qed

section \<open>The price of a trade\<close>

lemma match_body_trade:
  "fst (match_body pb b bq br pa a aq ar s) =
     \<lparr>match_qty = min (quantity (memory (pool s) b)) (quantity (memory (pool s) a)),
      match_price = (if timestamp_ns (memory (pool s) b) < timestamp_ns (memory (pool s) a)
                     then price (memory (pool s) b) else price (memory (pool s) a)),
      buy_id = order_id (memory (pool s) b), sell_id = order_id (memory (pool s) a)\<rparr>"
  by (simp only: match_body_def Let_def fst_conv)

lemma match_step_SomeD:
  assumes "match_step s = Some (t, s')"
  obtains pb b bq br pa a aq ar where
    "bids s = (pb, b # bq) # br" "asks s = (pa, a # aq) # ar" "\<not> double_less pb pa"
    "match_price t = (if timestamp_ns (memory (pool s) b) < timestamp_ns (memory (pool s) a)
                      then price (memory (pool s) b) else price (memory (pool s) a))"
    "match_qty t = min (quantity (memory (pool s) b)) (quantity (memory (pool s) a))"
    "buy_id t = order_id (memory (pool s) b)" "sell_id t = order_id (memory (pool s) a)"
proof -
  from assms obtain pb b bq br pa a aq ar where
    sh: "bids s = (pb, b # bq) # br" "asks s = (pa, a # aq) # ar" "\<not> double_less pb pa"
    and body: "match_body pb b bq br pa a aq ar s = (t, s')"
    by (auto simp: match_step_Some_iff)
  from body have "t = fst (match_body pb b bq br pa a aq ar s)" by simp
  then have t: "t = \<lparr>match_qty = min (quantity (memory (pool s) b)) (quantity (memory (pool s) a)),
      match_price = (if timestamp_ns (memory (pool s) b) < timestamp_ns (memory (pool s) a)
                     then price (memory (pool s) b) else price (memory (pool s) a)),
      buy_id = order_id (memory (pool s) b), sell_id = order_id (memory (pool s) a)\<rparr>"
    by (simp only: match_body_trade)
  show ?thesis
    by (rule that [OF sh]) (simp_all add: t)
qed

text \<open>
  Claim C1, as amended. In every iteration of the loop of \<open>try_match\<close> that matches the
  head bid with the head ask, the trade price is the bid's price when the bid's timestamp
  is strictly earlier than the ask's, and the ask's price otherwise; so with equal
  timestamps it is the ask's price.
\<close>

theorem try_match_trade_price:
  assumes "match_step s = Some (t, s')"
  shows "match_price t =
           (if timestamp_ns (memory (pool s) (head_bid s)) < timestamp_ns (memory (pool s) (head_ask s))
            then price (memory (pool s) (head_bid s))
            else price (memory (pool s) (head_ask s)))"
proof -
  from assms obtain pb b bq br pa a aq ar where
    "bids s = (pb, b # bq) # br" "asks s = (pa, a # aq) # ar"
    "match_price t = (if timestamp_ns (memory (pool s) b) < timestamp_ns (memory (pool s) a)
                      then price (memory (pool s) b) else price (memory (pool s) a))"
    by (rule match_step_SomeD)
  then show ?thesis
    by (simp add: head_bid_def head_ask_def)
qed

theorem try_match_trade_price_witness:
  "match_step tie_book =
     Some (\<lparr>match_qty = 10, match_price = Num 100, buy_id = 2, sell_id = 1\<rparr>, traded_book) \<and>
   match_price \<lparr>match_qty = 10, match_price = Num 100, buy_id = 2, sell_id = 1\<rparr> =
     (if timestamp_ns (memory (pool tie_book) (head_bid tie_book))
           < timestamp_ns (memory (pool tie_book) (head_ask tie_book))
      then price (memory (pool tie_book) (head_bid tie_book))
      else price (memory (pool tie_book) (head_ask tie_book)))"
proof -
  have h: "match_step tie_book =
     Some (\<lparr>match_qty = 10, match_price = Num 100, buy_id = 2, sell_id = 1\<rparr>, traded_book)"
    by (simp add: book_defs example_defs fun_eq_iff)
  show ?thesis
    using try_match_trade_price [OF h] h by simp
qed

text \<open>
  Claim C1 as stated fails when the two timestamps are equal: the head bid at 101 and the
  head ask at 100 both carry timestamp 5, and the trade is priced at 100, the ask's
  price, in the loop iteration and so in the \<open>add_order\<close> that runs it.
\<close>

theorem trade_price_tie_counterexample:
  "timestamp_ns (memory (pool tie_book) (head_bid tie_book)) =
     timestamp_ns (memory (pool tie_book) (head_ask tie_book)) \<and>
   price (memory (pool tie_book) (head_bid tie_book)) = Num 101 \<and>
   match_step tie_book =
     Some (\<lparr>match_qty = 10, match_price = Num 100, buy_id = 2, sell_id = 1\<rparr>, traded_book) \<and>
   add_order ex_bid 0 book1 =
     Some (Inr [\<lparr>match_qty = 10, match_price = Num 100, buy_id = 2, sell_id = 1\<rparr>], traded_book)"
  by (simp add: book_defs example_defs head_bid_def head_ask_def try_match.simps fun_eq_iff)

section \<open>Amending in place\<close>

text \<open>
  Claim C6, as amended. When the identifier is live, the order's price is a number (not
  NaN) and the new price is equal to it, \<open>amend_order\<close> returns true, prints no trade
  and changes nothing but the quantity field of that order's slot: both side books (hence
  the queue position), the lookup table, the free list, every other slot, and the
  identifier, side, price and timestamp of the order itself are as before. The matching
  loop is not run, whatever the new quantity.
\<close>

theorem amend_in_place_frame:
  assumes "order_lookup s oid = Some h" and "price (memory (pool s) h) = new_price"
    and "new_price \<noteq> NaN"
  shows "\<exists>s'. amend_order oid new_price new_quantity now now' s = Some (Inr (True, []), s') \<and>
           bids s' = bids s \<and> asks s' = asks s \<and> order_lookup s' = order_lookup s \<and>
           free_list (pool s') = free_list (pool s) \<and> capacity (pool s') = capacity (pool s) \<and>
           memory (pool s') = (memory (pool s))(h := (memory (pool s) h)\<lparr>quantity := new_quantity\<rparr>)"
  using assms by (simp add: amend_order_def set_quantity_def double_ne_iff)

theorem amend_in_place_frame_witness:
  "order_lookup book2 3 = Some 0 \<and> price (memory (pool book2) 0) = Num 99 \<and>
   (\<exists>s'. amend_order 3 (Num 99) 500 0 0 book2 = Some (Inr (True, []), s') \<and>
      bids s' = [(Num 99, [0])] \<and> asks s' = [(Num 100, [1])] \<and>
      order_lookup s' = order_lookup book2 \<and>
      free_list (pool s') = [] \<and> capacity (pool s') = 2 \<and>
      memory (pool s') = (memory (pool book2))(0 := (memory (pool book2) 0)\<lparr>quantity := 500\<rparr>))"
proof -
  have h1: "order_lookup book2 3 = Some 0" by (simp add: example_defs)
  have h2: "price (memory (pool book2) 0) = Num 99" by (simp add: example_defs)
  have h3: "Num 99 \<noteq> NaN" by simp
  show ?thesis
    using amend_in_place_frame [OF h1 h2 h3, of 500 0 0] h1 h2 by (simp add: book2_def)
qed

text \<open>
  Claim C6 as stated fails for an order whose price is NaN. On the book reached by
  \<open>add_order(nan_bid2); add_order(nan_bid3)\<close>, order 2 is live, at price NaN, at the head
  of its queue with timestamp 2. \<open>amend_order(2, NaN, 10)\<close> passes the same price and the
  same quantity, yet \<open>!=\<close> holds of a NaN and itself: the order is cancelled and added
  again, and ends behind order 3 with the timestamp 9 of the clock.
\<close>

theorem amend_nan_counterexample:
  "run [Add_order nan_bid2 0, Add_order nan_bid3 0] (OrderBook_init 2 raw0) = Some nan_level_book \<and>
   order_lookup nan_level_book 2 = Some 1 \<and> price (memory (pool nan_level_book) 1) = NaN \<and>
   amend_order 2 NaN 10 9 0 nan_level_book = Some (Inr (True, []), nan_amended_book) \<and>
   bids nan_level_book = [(NaN, [1, 0])] \<and> bids nan_amended_book = [(NaN, [0, 1])] \<and>
   timestamp_ns (memory (pool nan_level_book) 1) = 2 \<and>
   timestamp_ns (memory (pool nan_amended_book) 1) = 9"
  by (simp add: book_defs example_defs try_match.simps upt_2 fun_eq_iff)

section \<open>A full pool\<close>

text \<open>
  Claim C7. When the free list is empty, \<open>add_order\<close> fails with the pool's exception
  and the book (lookup table, both side books, pool) is exactly as before the call.
\<close>

theorem add_order_pool_exhausted:
  assumes "free_list (pool s) = []"
  shows "add_order order now s = Some (Inl Memory_pool_exhausted, s)"
  using assms by (simp add: add_order_def allocate_def)

theorem add_order_pool_exhausted_witness:
  "free_list (pool book2) = [] \<and>
   add_order ex_bid 0 book2 = Some (Inl Memory_pool_exhausted, book2)"
proof -
  have h: "free_list (pool book2) = []" by (simp add: book2_def)
  show ?thesis using h add_order_pool_exhausted [OF h, of ex_bid 0] by simp
qed

section \<open>Snapshots\<close>




text \<open>
  Claim C10. \<open>get_snapshot\<close> clears both output vectors first, so what it returns does
  not depend on what they held on entry: any two choices of prior contents give the same
  result for the same book and depth.
\<close>

theorem get_snapshot_ignores_prior_contents:
  "get_snapshot depth bids_out asks_out s = get_snapshot depth bids_out' asks_out' s"
  by (simp add: get_snapshot_def)

section \<open>The book after any sequence of calls\<close>

text \<open>
  Claim C4. After every public call of any sequence of calls on a new book, the book is
  strictly uncrossed: every bid level is priced strictly below every ask level.
\<close>

theorem book_uncrossed:
  assumes "run cs (OrderBook_init n raw) = Some s"
  shows "uncrossed s"
  using reachable_shape [OF assms] by simp

theorem book_uncrossed_witness:
  "run [Add_order ex_ask 0, Add_order ex_low_bid 0] (OrderBook_init 2 raw0) = Some book2 \<and>
   bids book2 = [(Num 99, [0])] \<and> asks book2 = [(Num 100, [1])] \<and> uncrossed book2"
  using book_uncrossed [OF run_book2] run_book2 by (simp add: book2_def)

text \<open>
  Claim C2, as amended. After every public call of a sequence of calls on a new book in
  which every \<open>add_order\<close> passes an order with a quantity above zero and a price that is
  not NaN, and every \<open>amend_order\<close> passes a new quantity above zero and a new price that
  is not NaN, every live order has a remaining quantity above zero.
\<close>

theorem positive_quantities_kept:
  assumes "run cs (OrderBook_init n raw) = Some s" and "\<forall>c \<in> set cs. positive_call c"
    and "\<forall>c \<in> set cs. number_call c"
  shows "all_positive s"
  using assms(1) init_inv init_positive assms(2,3) by (rule run_positive)

theorem positive_quantities_kept_witness:
  "run [Add_order ex_ask 0, Add_order ex_low_bid 0] (OrderBook_init 2 raw0) = Some book2 \<and>
   positive_call (Add_order ex_ask 0) \<and> positive_call (Add_order ex_low_bid 0) \<and>
   number_call (Add_order ex_ask 0) \<and> number_call (Add_order ex_low_bid 0) \<and>
   live_handles book2 = [0, 1] \<and> all_positive book2"
proof -
  have h: "\<forall>c \<in> set [Add_order ex_ask 0, Add_order ex_low_bid 0]. positive_call c"
    by (simp add: example_defs)
  have h': "\<forall>c \<in> set [Add_order ex_ask 0, Add_order ex_low_bid 0]. number_call c"
    by (simp add: example_defs)
  show ?thesis
    using positive_quantities_kept [OF run_book2 h h'] run_book2 h h'
    by (simp add: book2_def live_handles_def)
qed

text \<open>
  Claim C2 as stated fails for an in-place amend to quantity zero: after
  \<open>add_order(ex_ask); amend_order(1, 100, 0)\<close> on a new book the order is still in the
  lookup table and in its queue, with quantity zero.
\<close>

theorem amend_to_zero_counterexample:
  "run [Add_order ex_ask 0, Amend_order 1 (Num 100) 0 0 0] (OrderBook_init 3 raw0) = Some zero_amend_book \<and>
   order_lookup zero_amend_book 1 = Some 2 \<and> live_handles zero_amend_book = [2] \<and>
   quantity (memory (pool zero_amend_book) 2) = 0 \<and> \<not> all_positive zero_amend_book"
  by (simp add: book_defs example_defs try_match.simps upt_3 live_handles_def all_positive_def
      fun_eq_iff)

section \<open>Orders with quantity zero\<close>

text \<open>
  Claim C3, as amended. \<open>add_order\<close> does not look at the quantity: given a free slot,
  an order with quantity zero that does not cross the opposite side is admitted like any
  other, with no trade; after the call it is in the lookup table under its identifier
  and in a queue of the book, with quantity zero.
\<close>

theorem zero_quantity_admitted:
  assumes "run cs (OrderBook_init n raw) = Some s" and "free_list (pool s) \<noteq> []"
    and "quantity order = 0" and "\<not> crosses order s"
  shows "\<exists>s'. add_order order now s = Some (Inr [], s') \<and>
           order_lookup s' (order_id order) = Some (last (free_list (pool s))) \<and>
           last (free_list (pool s)) \<in> set (live_handles s') \<and>
           quantity (memory (pool s') (last (free_list (pool s)))) = 0"
proof -
  from reachable_shape [OF assms(1)] have "uncrossed s" by simp
  from add_order_resting [OF this assms(4,2), of now] assms(3) show ?thesis
    by (simp add: live_handles_insert)
qed

theorem zero_quantity_admitted_witness:
  "run [Add_order ex_ask 0] (OrderBook_init 3 raw0) = Some book1 \<and>
   free_list (pool book1) \<noteq> [] \<and> quantity ex_zero_bid = 0 \<and> \<not> crosses ex_zero_bid book1 \<and>
   (\<exists>s'. add_order ex_zero_bid 0 book1 = Some (Inr [], s') \<and>
      order_lookup s' 4 = Some 1 \<and> 1 \<in> set (live_handles s') \<and>
      quantity (memory (pool s') 1) = 0)"
proof -
  have h2: "free_list (pool book1) \<noteq> []" by (simp add: book1_def)
  have h3: "quantity ex_zero_bid = 0" by (simp add: ex_zero_bid_def)
  have h4: "\<not> crosses ex_zero_bid book1" by (simp add: crosses_def example_defs)
  have e: "order_id ex_zero_bid = 4" "last (free_list (pool book1)) = 1"
    by (simp_all add: example_defs)
  show ?thesis
    using zero_quantity_admitted [OF run_book1 h2 h3 h4, of 0] run_book1 h2 h3 h4
    by (simp add: e)
qed

text \<open>
  Claim C3 as stated fails: \<open>add_order\<close> of a bid with quantity zero at 98 on a book
  holding one ask at 100 is not rejected; the order rests at 98 with quantity zero.
\<close>

theorem zero_quantity_counterexample:
  "quantity ex_zero_bid = 0 \<and>
   add_order ex_zero_bid 0 book1 = Some (Inr [], zero_bid_book) \<and>
   order_lookup zero_bid_book 4 = Some 1 \<and> bids zero_bid_book = [(Num 98, [1])] \<and>
   quantity (memory (pool zero_bid_book) 1) = 0"
  by (simp add: book_defs example_defs try_match.simps)

section \<open>Termination of the matching loop\<close>

lemma add_order_entering:
  "free_list (pool s) \<noteq> [] \<Longrightarrow>
     add_order order now s =
       (case try_match (entering order now s) of
          None \<Rightarrow> None | Some (ts, s') \<Rightarrow> Some (Inr ts, s'))"
  by (simp add: add_order_def allocate_def entering_def Let_def)

lemma loop_after_distinct:
  "distinct (live_handles s) \<Longrightarrow> loop_after k s = Some u \<Longrightarrow> distinct (live_handles u)"
proof (induction k arbitrary: s)
  case 0
  then show ?case by simp
next
  case (Suc k)
  from Suc.prems(2) obtain t s1 where
    s1: "match_step s = Some (t, s1)" "loop_after k s1 = Some u"
    by (auto split: option.splits)
  from s1(1) Suc.prems(1) have "distinct (live_handles s1)" by (rule match_step_live(5))
  then show ?case using s1(2) by (rule Suc.IH)
qed

text \<open>
  Claim C5, as amended. On a book reached by calls that passed no NaN price, the loop that
  \<open>add_order\<close> runs (given a free slot) returns, and \<open>add_order\<close> with it, after at most
  as many iterations, one trade each, as there are live orders when it starts; and every
  iteration of that loop either leaves the loop or takes at least one order out of the
  book.
\<close>

theorem try_match_returns:
  assumes "run cs (OrderBook_init n raw) = Some s" and "\<forall>c \<in> set cs. number_call c"
    and "free_list (pool s) \<noteq> []"
  shows "(\<exists>ts s'. try_match (entering order now s) = Some (ts, s') \<and>
            add_order order now s = Some (Inr ts, s') \<and>
            length ts \<le> length (live_handles (entering order now s))) \<and>
         (\<forall>k u. loop_after k (entering order now s) = Some u \<longrightarrow>
            (case match_step u of None \<Rightarrow> True
             | Some (t, u1) \<Rightarrow> length (live_handles u1) < length (live_handles u)))"
proof
  from assms(1,2) have "book_inv s" by (rule reachable_inv)
  then have d: "distinct (live_handles (entering order now s))"
    unfolding entering_def using assms(3) by (rule insert_order_distinct)
  from try_match_terminates [OF d] obtain ts s' where
    r: "try_match (entering order now s) = Some (ts, s')"
      "length ts \<le> length (live_handles (entering order now s))"
    by blast
  from r(1) assms(3) have "add_order order now s = Some (Inr ts, s')"
    by (simp add: add_order_entering)
  with r show "\<exists>ts s'. try_match (entering order now s) = Some (ts, s') \<and>
            add_order order now s = Some (Inr ts, s') \<and>
            length ts \<le> length (live_handles (entering order now s))"
    by blast
  show "\<forall>k u. loop_after k (entering order now s) = Some u \<longrightarrow>
            (case match_step u of None \<Rightarrow> True
             | Some (t, u1) \<Rightarrow> length (live_handles u1) < length (live_handles u))"
  proof (intro allI impI)
    fix k u
    assume "loop_after k (entering order now s) = Some u"
    with d have "distinct (live_handles u)" by (rule loop_after_distinct)
    then show "case match_step u of None \<Rightarrow> True
             | Some (t, u1) \<Rightarrow> length (live_handles u1) < length (live_handles u)"
      by (auto split: option.splits dest: match_step_live(3))
  qed
qed

theorem try_match_returns_witness:
  "run [Add_order ex_ask 0] (OrderBook_init 3 raw0) = Some book1 \<and>
   number_call (Add_order ex_ask 0) \<and> free_list (pool book1) \<noteq> [] \<and>
   entering ex_bid 0 book1 = tie_book \<and> length (live_handles tie_book) = 2 \<and>
   (\<exists>ts s'. try_match tie_book = Some (ts, s') \<and>
      add_order ex_bid 0 book1 = Some (Inr ts, s') \<and> length ts \<le> 2) \<and>
   (case match_step tie_book of None \<Rightarrow> True
    | Some (t, u1) \<Rightarrow> length (live_handles u1) < 2)"
proof -
  have h2: "\<forall>c \<in> set [Add_order ex_ask 0]. number_call c" by (simp add: example_defs)
  have h3: "free_list (pool book1) \<noteq> []" by (simp add: book1_def)
  have e: "entering ex_bid 0 book1 = tie_book"
    by (simp add: entering_def book_defs example_defs fun_eq_iff)
  have l: "length (live_handles tie_book) = 2"
    by (simp add: live_handles_def tie_book_def)
  have k: "loop_after 0 tie_book = Some tie_book" by simp
  note r = try_match_returns [OF run_book1 h2 h3, of ex_bid 0, unfolded e]
  from r have a: "\<exists>ts s'. try_match tie_book = Some (ts, s') \<and>
      add_order ex_bid 0 book1 = Some (Inr ts, s') \<and> length ts \<le> 2"
    unfolding l by (rule conjunct1)
  from r have "\<forall>k u. loop_after k tie_book = Some u \<longrightarrow>
      (case match_step u of None \<Rightarrow> True
       | Some (t, u1) \<Rightarrow> length (live_handles u1) < length (live_handles u))"
    by (rule conjunct2)
  then have "loop_after 0 tie_book = Some tie_book \<longrightarrow>
      (case match_step tie_book of None \<Rightarrow> True
       | Some (t, u1) \<Rightarrow> length (live_handles u1) < length (live_handles tie_book))"
    by blast
  with k have b: "case match_step tie_book of None \<Rightarrow> True
       | Some (t, u1) \<Rightarrow> length (live_handles u1) < 2"
    unfolding l by (rule rev_mp)
  have h2': "number_call (Add_order ex_ask 0)" using h2 by simp
  from run_book1 h2' h3 e l a b show ?thesis by (intro conjI)
qed

lemma loop_never_returns:
  "s = loop_book_a \<or> s = loop_book_b \<Longrightarrow> try_match s \<noteq> Some (ts, s')"
proof (induction ts arbitrary: s)
  case Nil
  show ?case
  proof
    assume "try_match s = Some ([], s')"
    then have "match_step s = None" by (auto dest: try_match_Nil)
    with Nil show False
      by (auto simp: book_defs example_defs)
  qed
next
  case (Cons t ts)
  show ?case
  proof
    assume "try_match s = Some (t # ts, s')"
    then obtain s1 where s1: "match_step s = Some (t, s1)" "try_match s1 = Some (ts, s')"
      by (auto dest: try_match_Cons)
    from Cons.prems s1(1) have "s1 = loop_book_a \<or> s1 = loop_book_b"
      by (auto simp: book_defs example_defs fun_eq_iff)
    from Cons.IH [OF this] s1(2) show False by simp
  qed
qed

text \<open>
  Claim C5 as stated fails once a NaN price has been passed. After \<open>add_order(nan_bid1);
  add_order(nan_bid2); add_order(nan_bid3); cancel_order(2)\<close> slot 2 is free and still
  queued. \<open>add_order(nan_sell)\<close> takes slot 2 for an ask; after two iterations of its loop
  slot 2 is the head of both sides. The next iteration decrements its quantity twice,
  from 10 through 0 to \<open>2^64 - 10\<close>, and removes no order; the one after brings the
  quantity back to 10, and so on: the loop does not return, nor does \<open>add_order\<close>.
\<close>

theorem nan_loop_counterexample:
  "run [Add_order nan_bid1 0, Add_order nan_bid2 0, Add_order nan_bid3 0, Cancel_order 2]
     (OrderBook_init 4 raw0) = Some dangling_book \<and>
   entering nan_sell 0 dangling_book = loop_book0 \<and>
   loop_after 2 loop_book0 = Some loop_book_a \<and>
   match_step loop_book_a =
     Some (\<lparr>match_qty = 10, match_price = Num 100, buy_id = 5, sell_id = 5\<rparr>, loop_book_b) \<and>
   live_handles loop_book_b = live_handles loop_book_a \<and>
   match_step loop_book_b =
     Some (\<lparr>match_qty = 18446744073709551606, match_price = Num 100, buy_id = 5, sell_id = 5\<rparr>,
           loop_book_a) \<and>
   try_match loop_book0 = None \<and>
   add_order nan_sell 0 dangling_book = None"
proof -
  have run: "run [Add_order nan_bid1 0, Add_order nan_bid2 0, Add_order nan_bid3 0, Cancel_order 2]
     (OrderBook_init 4 raw0) = Some dangling_book"
    by (simp add: book_defs example_defs try_match.simps upt_4 fun_eq_iff)
  have e: "entering nan_sell 0 dangling_book = loop_book0"
    by (simp add: entering_def book_defs example_defs fun_eq_iff)
  have s0: "match_step loop_book0 =
      Some (\<lparr>match_qty = 10, match_price = Num 101, buy_id = 3, sell_id = 5\<rparr>, loop_book1)"
    by (simp add: book_defs example_defs fun_eq_iff)
  have s1: "match_step loop_book1 =
      Some (\<lparr>match_qty = 10, match_price = Num 100, buy_id = 1, sell_id = 5\<rparr>, loop_book_a)"
    by (simp add: book_defs example_defs fun_eq_iff)
  have sa: "match_step loop_book_a =
      Some (\<lparr>match_qty = 10, match_price = Num 100, buy_id = 5, sell_id = 5\<rparr>, loop_book_b)"
    by (simp add: book_defs example_defs fun_eq_iff)
  have sb: "match_step loop_book_b =
      Some (\<lparr>match_qty = 18446744073709551606, match_price = Num 100, buy_id = 5, sell_id = 5\<rparr>,
            loop_book_a)"
    by (simp add: book_defs example_defs fun_eq_iff)
  have la: "loop_after 2 loop_book0 = Some loop_book_a"
    by (simp add: numeral_2_eq_2 s0 s1)
  have lv: "live_handles loop_book_b = live_handles loop_book_a"
    by (simp add: live_handles_def example_defs)
  have na: "try_match loop_book_a = None"
    using loop_never_returns [of loop_book_a] by (cases "try_match loop_book_a") auto
  have n0: "try_match loop_book0 = None"
    by (simp add: try_match_go [OF s0] try_match_go [OF s1] na)
  have f: "free_list (pool dangling_book) \<noteq> []"
    by (simp add: dangling_book_def)
  have ad: "add_order nan_sell 0 dangling_book = None"
    by (simp add: add_order_entering [OF f] e n0)
  from run e la sa lv sb n0 ad show ?thesis by simp
qed

section \<open>Adding and cancelling\<close>

lemma add_then_cancel_free:
  assumes "book_inv s" and "uncrossed s" and "order_lookup s (order_id order) = None"
    and "free_list (pool s) \<noteq> []" and "\<not> crosses order s"
  shows "\<exists>s1 s2. add_order order now s = Some (Inr [], s1) \<and>
           cancel_order (order_id order) s1 = (True, s2) \<and>
           order_lookup s2 = order_lookup s \<and> bids s2 = bids s \<and> asks s2 = asks s \<and>
           free_list (pool s2) = free_list (pool s) \<and> capacity (pool s2) = capacity (pool s) \<and>
           (\<forall>h \<in> set (live_handles s). memory (pool s2) h = memory (pool s) h)"
proof -
  let ?h = "last (free_list (pool s))"
  let ?new = "if timestamp_ns order = 0 then order\<lparr>timestamp_ns := now\<rparr> else order"
  let ?s1 = "insert_order ?h ((pool s)\<lparr>free_list := butlast (free_list (pool s))\<rparr>) ?new s"
  let ?s2 = "snd (cancel_order (order_id order) ?s1)"
  have add: "add_order order now s = Some (Inr [], ?s1)"
    using assms(2,5,4) by (rule add_order_resting)
  have id: "order_id ?new = order_id order" and side: "is_buy ?new = is_buy order"
    and pr: "price ?new = price order"
    by simp_all
  have lk: "order_lookup ?s1 (order_id order) = Some ?h"
    by (simp add: id)
  note sel = cancel_order_sel(2-8) [OF lk]
  from assms(1) have d: "distinct (live_handles s @ free_list (pool s))"
    and s0: "\<forall>l \<in> set (bids s). snd l \<noteq> []" "\<forall>l \<in> set (asks s). snd l \<noteq> []"
    by (simp_all add: book_inv_def shape_inv_def)
  have fresh: "?h \<notin> set (live_handles s)"
    using d assms(4) by (auto simp: last_in_set)
  then have fb: "?h \<notin> set (handles_of (bids s))" and fa: "?h \<notin> set (handles_of (asks s))"
    by (simp_all add: live_handles_def)
  have can: "cancel_order (order_id order) ?s1 = (True, ?s2)"
    using sel(1) by (simp add: prod_eq_iff)
  have l2: "order_lookup ?s2 = order_lookup s"
    using assms(3) by (simp add: sel id fun_upd_idem)
  have m1: "memory (pool ?s1) ?h = ?new"
    by simp
  have b2: "bids ?s2 = bids s"
  proof (cases "is_buy order")
    case True
    then show ?thesis
      using remove_push [of greater_cmp "bids s" ?h "price order"] s0(1) fb
      by (simp add: sel m1 side pr del: insert_order_sel(1))
  next
    case False
    then show ?thesis
      by (simp add: sel m1 side pr del: insert_order_sel(1))
  qed
  have a2: "asks ?s2 = asks s"
  proof (cases "is_buy order")
    case True
    then show ?thesis
      by (simp add: sel m1 side pr del: insert_order_sel(1))
  next
    case False
    then show ?thesis
      using remove_push [of less_cmp "asks s" ?h "price order"] s0(2) fa
      by (simp add: sel m1 side pr del: insert_order_sel(1))
  qed
  have f2: "free_list (pool ?s2) = free_list (pool s)"
    using assms(4) by (simp add: sel)
  have c2: "capacity (pool ?s2) = capacity (pool s)"
    by (simp add: sel)
  have m2: "\<forall>h \<in> set (live_handles s). memory (pool ?s2) h = memory (pool s) h"
    using fresh by (auto simp: sel)
  from add can l2 b2 a2 f2 c2 m2 show ?thesis
    by blast
qed

lemma add_then_cancel_full:
  assumes "order_lookup s (order_id order) = None" and "free_list (pool s) = []"
  shows "add_order order now s = Some (Inl Memory_pool_exhausted, s) \<and>
         cancel_order (order_id order) s = (False, s)"
  using assms by (simp add: add_order_def allocate_def cancel_order_sel)

text \<open>
  Claim C8, as amended. On a book reached by any sequence of calls that passed no NaN
  price, for an order whose identifier is not live and which does not cross the opposite
  side, \<open>add_order\<close> followed by \<open>cancel_order\<close> of its identifier prints no trade and
  leaves the lookup table, both side books, the free list and the record of every live
  order as they were before the add. (With a free slot the add succeeds and the cancel
  returns true; with a full pool the add fails and the cancel returns false.)
\<close>

theorem add_then_cancel:
  assumes "run cs (OrderBook_init n raw) = Some s" and "\<forall>c \<in> set cs. number_call c"
    and "order_lookup s (order_id order) = None" and "\<not> crosses order s"
  shows "\<exists>s1 s2. add_order order now s =
             Some (if free_list (pool s) = [] then Inl Memory_pool_exhausted else Inr [], s1) \<and>
           cancel_order (order_id order) s1 = (free_list (pool s) \<noteq> [], s2) \<and>
           order_lookup s2 = order_lookup s \<and> bids s2 = bids s \<and> asks s2 = asks s \<and>
           free_list (pool s2) = free_list (pool s) \<and> capacity (pool s2) = capacity (pool s) \<and>
           (\<forall>h \<in> set (live_handles s). memory (pool s2) h = memory (pool s) h)"
proof (cases "free_list (pool s) = []")
  case True
  with add_then_cancel_full [OF assms(3) True, of now] show ?thesis
    by auto
next
  case False
  from assms(1,2) have "book_inv s" by (rule reachable_inv)
  moreover from reachable_shape [OF assms(1)] have "uncrossed s" by simp
  ultimately show ?thesis
    using add_then_cancel_free [OF _ _ assms(3) False assms(4), of now] False by simp
qed

theorem add_then_cancel_witness:
  "run [Add_order ex_ask 0] (OrderBook_init 3 raw0) = Some book1 \<and>
   number_call (Add_order ex_ask 0) \<and>
   order_lookup book1 (order_id ex_low_bid) = None \<and> \<not> crosses ex_low_bid book1 \<and>
   (\<exists>s1 s2. add_order ex_low_bid 0 book1 = Some (Inr [], s1) \<and>
      cancel_order 3 s1 = (True, s2) \<and>
      order_lookup s2 = order_lookup book1 \<and> bids s2 = [] \<and> asks s2 = [(Num 100, [2])] \<and>
      free_list (pool s2) = [0, 1] \<and> capacity (pool s2) = 3 \<and>
      (\<forall>h \<in> set (live_handles book1). memory (pool s2) h = memory (pool book1) h))"
proof -
  have h1: "\<forall>c \<in> set [Add_order ex_ask 0]. number_call c" by (simp add: example_defs)
  have h2: "order_lookup book1 (order_id ex_low_bid) = None" by (simp add: example_defs)
  have h3: "\<not> crosses ex_low_bid book1" by (simp add: crosses_def example_defs)
  have e: "order_id ex_low_bid = 3" "bids book1 = []" "asks book1 = [(Num 100, [2])]"
    "free_list (pool book1) = [0, 1]" "capacity (pool book1) = 3"
    by (simp_all add: example_defs)
  show ?thesis
    using add_then_cancel [OF run_book1 h1 h2 h3, of 0] run_book1 h1 h2 h3
    by (simp add: e)
qed

text \<open>
  Claim C8 as stated fails when the added order crosses: on the book holding one ask at
  100 for 10, \<open>add_order\<close> of a bid at 101 for 10 trades both orders away; the following
  \<open>cancel_order(2)\<close> returns false and the book has lost the ask it held before the add.
\<close>

theorem add_then_cancel_counterexample:
  "order_lookup book1 (order_id ex_bid) = None \<and>
   add_order ex_bid 0 book1 =
     Some (Inr [\<lparr>match_qty = 10, match_price = Num 100, buy_id = 2, sell_id = 1\<rparr>], traded_book) \<and>
   cancel_order (order_id ex_bid) traded_book = (False, traded_book) \<and>
   asks book1 = [(Num 100, [2])] \<and> asks traded_book = [] \<and>
   order_lookup book1 1 = Some 2 \<and> order_lookup traded_book 1 = None"
  by (simp add: book_defs example_defs try_match.simps fun_eq_iff)

section \<open>What a snapshot holds\<close>







end
